theory Spec2Isabelle
  imports Main
begin

section \<open>Grids and cell access\<close>

text \<open>
  The engine lives in \<^verbatim>\<open>src/src/context/SudokuContext.jsx\<close>. A board is a JavaScript
  array of rows, each row an array of numbers; \<open>0\<close> is the empty cell. The model keeps
  the nested-array shape: a grid is a list of rows, and nothing forces the rows to have
  the same length or the grid to agree with the \<^verbatim>\<open>size\<close> argument that every function
  receives separately. That argument is written \<open>sz\<close>, since \<open>size\<close> is a constant of
  HOL. Cell values are natural numbers, the integers from 0 upwards of the data model;
  the counter and its limit are natural numbers as well.
\<close>

type_synonym grid = "nat list list"

text \<open>
  What JavaScript does outside the array bounds is written out.
  \<^item> \<^verbatim>\<open>board[r][c]\<close> with no row \<open>r\<close>: \<^verbatim>\<open>board[r]\<close> is \<^verbatim>\<open>undefined\<close> and indexing it
    throws a \<^verbatim>\<open>TypeError\<close>.
  \<^item> \<^verbatim>\<open>board[r][c]\<close> with a row \<open>r\<close> that has no column \<open>c\<close>: the value is
    \<^verbatim>\<open>undefined\<close>, here \<open>None\<close>; it is \<^verbatim>\<open>===\<close> to no number.
  \<^item> \<^verbatim>\<open>board[r][c] = v\<close> with no row \<open>r\<close> throws a \<^verbatim>\<open>TypeError\<close>; with a row that has
    no column \<open>c\<close> JavaScript lengthens the row and leaves holes. Rows with holes are
    not values of type \<^typ>\<open>grid\<close>, so the model stops there with \<open>OutsideModel\<close>.
\<close>

datatype error = TypeError | OutsideModel

definition cellAt :: "grid \<Rightarrow> nat \<Rightarrow> nat \<Rightarrow> error + nat option" where
  "cellAt board r c =
     (if r < length board
      then Inr (if c < length (board ! r) then Some (board ! r ! c) else None)
      else Inl TypeError)"

definition setCell :: "grid \<Rightarrow> nat \<Rightarrow> nat \<Rightarrow> nat \<Rightarrow> error + grid" where
  "setCell board r c v =
     (if r < length board
      then (if c < length (board ! r)
            then Inr (board[r := (board ! r)[c := v]])
            else Inl OutsideModel)
      else Inl TypeError)"

text \<open>\<^verbatim>\<open>clone2D\<close> copies every row; on values the copy is the grid itself.\<close>

definition clone2D :: "grid \<Rightarrow> grid" where
  "clone2D array = map (\<lambda>row. row) array"

definition SOLUTION_6 :: grid where
  "SOLUTION_6 =
    [[1, 2, 3, 4, 5, 6],
     [4, 5, 6, 1, 2, 3],
     [2, 3, 4, 5, 6, 1],
     [5, 6, 1, 2, 3, 4],
     [3, 4, 5, 6, 1, 2],
     [6, 1, 2, 3, 4, 5]]"

definition SOLUTION_9 :: grid where
  "SOLUTION_9 =
    [[1, 2, 3, 4, 5, 6, 7, 8, 9],
     [4, 5, 6, 7, 8, 9, 1, 2, 3],
     [7, 8, 9, 1, 2, 3, 4, 5, 6],
     [2, 3, 4, 5, 6, 7, 8, 9, 1],
     [5, 6, 7, 8, 9, 1, 2, 3, 4],
     [8, 9, 1, 2, 3, 4, 5, 6, 7],
     [3, 4, 5, 6, 7, 8, 9, 1, 2],
     [6, 7, 8, 9, 1, 2, 3, 4, 5],
     [9, 1, 2, 3, 4, 5, 6, 7, 8]]"

section \<open>Constraint checker\<close>

definition getBlockDimensions :: "nat \<Rightarrow> nat \<times> nat" where
  "getBlockDimensions sz = (if sz = 6 then (2, 3) else (3, 3))"

text \<open>
  Each of the three loops of \<^verbatim>\<open>isSafe\<close> visits a run of cells in a fixed order and
  leaves the function with \<^verbatim>\<open>false\<close> at the first cell that holds \<open>num\<close>.
  \<open>scanFor\<close> is that loop over the cells it visits: \<open>Inr False\<close> is the early
  \<^verbatim>\<open>return false\<close>, \<open>Inr True\<close> is falling out of the loop.
\<close>

fun scanFor :: "grid \<Rightarrow> nat \<Rightarrow> (nat \<times> nat) list \<Rightarrow> error + bool" where
  "scanFor board num [] = Inr True"
| "scanFor board num ((r, c) # rest) =
     (case cellAt board r c of
        Inl e \<Rightarrow> Inl e
      | Inr v \<Rightarrow> if v = Some num then Inr False else scanFor board num rest)"

definition rowCells :: "nat \<Rightarrow> nat \<Rightarrow> (nat \<times> nat) list" where
  "rowCells row sz = map (\<lambda>c. (row, c)) [0..<sz]"

definition colCells :: "nat \<Rightarrow> nat \<Rightarrow> (nat \<times> nat) list" where
  "colCells col sz = map (\<lambda>r. (r, col)) [0..<sz]"

text \<open>The nested block loop: \<open>r\<close> outside, \<open>c\<close> inside.\<close>

definition blockCells :: "nat \<Rightarrow> nat \<Rightarrow> nat \<Rightarrow> nat \<Rightarrow> (nat \<times> nat) list" where
  "blockCells startRow startCol blockRows blockCols =
     List.product [startRow..<startRow + blockRows] [startCol..<startCol + blockCols]"

definition isSafe :: "grid \<Rightarrow> nat \<Rightarrow> nat \<Rightarrow> nat \<Rightarrow> nat \<Rightarrow> error + bool" where
  "isSafe board row col num sz =
     (case getBlockDimensions sz of (blockRows, blockCols) \<Rightarrow>
        (case scanFor board num (rowCells row sz) of
           Inl e \<Rightarrow> Inl e
         | Inr False \<Rightarrow> Inr False
         | Inr True \<Rightarrow>
            (case scanFor board num (colCells col sz) of
               Inl e \<Rightarrow> Inl e
             | Inr False \<Rightarrow> Inr False
             | Inr True \<Rightarrow>
                (let startRow = row - (row mod blockRows);
                     startCol = col - (col mod blockCols)
                 in scanFor board num (blockCells startRow startCol blockRows blockCols)))))"

section \<open>Solution counter\<close>

text \<open>
  \<^verbatim>\<open>countSolutions\<close> keeps the board and the counter \<^verbatim>\<open>count\<close> in variables that the
  inner function \<^verbatim>\<open>backtrack\<close> reads and writes. The model passes both through every
  call: a call takes the board and the count and returns them as the call leaves them.
  A \<^verbatim>\<open>TypeError\<close> leaves through every caller, so an \<open>Inl\<close> is handed on unchanged.

  The search for the first empty cell visits the cells row by row; \<open>Inr None\<close> is
  \<^verbatim>\<open>row === -1\<close> after the loop.
\<close>

definition allCells :: "nat \<Rightarrow> (nat \<times> nat) list" where
  "allCells sz = List.product [0..<sz] [0..<sz]"

fun firstEmpty :: "grid \<Rightarrow> (nat \<times> nat) list \<Rightarrow> error + (nat \<times> nat) option" where
  "firstEmpty board [] = Inr None"
| "firstEmpty board ((r, c) # rest) =
     (case cellAt board r c of
        Inl e \<Rightarrow> Inl e
      | Inr v \<Rightarrow> if v = Some 0 then Inr (Some (r, c)) else firstEmpty board rest)"

text \<open>
  \<open>tryNums\<close> is the loop \<^verbatim>\<open>for (let num = 1; num <= size; num++)\<close> of \<^verbatim>\<open>backtrack\<close>,
  entered at \<open>num\<close>: place, recurse, clear the cell, leave early once the count has
  reached the limit.
\<close>

function backtrack :: "nat \<Rightarrow> nat \<Rightarrow> grid \<Rightarrow> nat \<Rightarrow> error + grid \<times> nat"
  and tryNums :: "nat \<Rightarrow> nat \<Rightarrow> nat \<Rightarrow> nat \<Rightarrow> nat \<Rightarrow> grid \<Rightarrow> nat \<Rightarrow> error + grid \<times> nat"
where
  "backtrack sz limit board count =
     (if count \<ge> limit then Inr (board, count)
      else case firstEmpty board (allCells sz) of
             Inl e \<Rightarrow> Inl e
           | Inr None \<Rightarrow> Inr (board, count + 1)
           | Inr (Some (row, col)) \<Rightarrow> tryNums sz limit row col 1 board count)"
| "tryNums sz limit row col num board count =
     (if num \<le> sz then
        (case isSafe board row col num sz of
           Inl e \<Rightarrow> Inl e
         | Inr False \<Rightarrow> tryNums sz limit row col (num + 1) board count
         | Inr True \<Rightarrow>
            (case setCell board row col num of
               Inl e \<Rightarrow> Inl e
             | Inr placed \<Rightarrow>
                (case backtrack sz limit placed count of
                   Inl e \<Rightarrow> Inl e
                 | Inr (board', count') \<Rightarrow>
                    (case setCell board' row col 0 of
                       Inl e \<Rightarrow> Inl e
                     | Inr board'' \<Rightarrow>
                        if count' \<ge> limit then Inr (board'', count')
                        else tryNums sz limit row col (num + 1) board'' count'))))
      else Inr (board, count))"
  by pat_completeness auto


text \<open>
  The recursion of \<open>tryNums\<close> continues on the board that the inner \<open>backtrack\<close> call
  returns, so termination depends on what that call does to the board; it is proved in
  the section on termination below. \<open>putCell\<close> is the write inside the bounds and
  \<open>zeroCount\<close> the number of empty cells, which is the measure.
\<close>

definition putCell :: "grid \<Rightarrow> nat \<Rightarrow> nat \<Rightarrow> nat \<Rightarrow> grid" where
  "putCell board r c v = board[r := (board ! r)[c := v]]"

definition zeroCount :: "grid \<Rightarrow> nat" where
  "zeroCount board = sum_list (map (\<lambda>row. length (filter (\<lambda>v. v = 0) row)) board)"

definition countSolutions :: "grid \<Rightarrow> nat \<Rightarrow> nat \<Rightarrow> error + grid \<times> nat" where
  "countSolutions board sz limit = backtrack sz limit board 0"

section \<open>Puzzle digger\<close>

text \<open>
  \<^verbatim>\<open>Math.random\<close> is the only source of chance. \<open>rnd i\<close> stands for the value of
  \<^verbatim>\<open>Math.floor(Math.random() * (i + 1))\<close> drawn in the shuffle's round \<open>i\<close>; it lies in
  \<open>{0..i}\<close> because \<^verbatim>\<open>Math.random()\<close> lies in \<open>[0, 1)\<close>.
\<close>

definition swapAt :: "nat list \<Rightarrow> nat \<Rightarrow> nat \<Rightarrow> nat list" where
  "swapAt indices i j = (indices[i := indices ! j])[j := indices ! i]"

primrec shuffleLoop :: "(nat \<Rightarrow> nat) \<Rightarrow> nat \<Rightarrow> nat list \<Rightarrow> nat list" where
  "shuffleLoop rnd 0 indices = indices"
| "shuffleLoop rnd (Suc k) indices = shuffleLoop rnd k (swapAt indices (Suc k) (rnd (Suc k)))"

definition shuffle :: "(nat \<Rightarrow> nat) \<Rightarrow> nat list \<Rightarrow> nat list" where
  "shuffle rnd indices = shuffleLoop rnd (length indices - 1) indices"

text \<open>
  The digging loop over the shuffled indices. \<^verbatim>\<open>maxToRemove\<close> is
  \<^verbatim>\<open>totalCells - cluesCount\<close> and is negative when more clues are asked for than the
  grid has cells. A cell read as \<^verbatim>\<open>undefined\<close> is not \<^verbatim>\<open>=== 0\<close>, so the source goes on
  to assign to it and lengthens the row; this is where the model stops.
\<close>

fun digLoop :: "nat \<Rightarrow> int \<Rightarrow> nat list \<Rightarrow> grid \<Rightarrow> nat \<Rightarrow> error + grid" where
  "digLoop sz maxToRemove [] board removed = Inr board"
| "digLoop sz maxToRemove (idx # rest) board removed =
     (if int removed \<ge> maxToRemove then Inr board
      else
        (let r = idx div sz; c = idx mod sz in
           (case cellAt board r c of
              Inl e \<Rightarrow> Inl e
            | Inr None \<Rightarrow> Inl OutsideModel
            | Inr (Some backup) \<Rightarrow>
               if backup = 0 then digLoop sz maxToRemove rest board removed
               else
                 (case setCell board r c 0 of
                    Inl e \<Rightarrow> Inl e
                  | Inr dug \<Rightarrow>
                     (case countSolutions (clone2D dug) sz 2 of
                        Inl e \<Rightarrow> Inl e
                      | Inr (temp, solutions) \<Rightarrow>
                         if solutions \<noteq> 1
                         then (case setCell dug r c backup of
                                 Inl e \<Rightarrow> Inl e
                               | Inr restored \<Rightarrow> digLoop sz maxToRemove rest restored removed)
                         else digLoop sz maxToRemove rest dug (removed + 1))))))"

definition makeUniquePuzzleFromSolution :: "grid \<Rightarrow> int \<Rightarrow> (nat \<Rightarrow> nat) \<Rightarrow> error + grid" where
  "makeUniquePuzzleFromSolution solution cluesCount rnd =
     (let sz = length solution;
          totalCells = sz * sz;
          board = clone2D solution;
          indices = shuffle rnd [0..<totalCells];
          maxToRemove = int totalCells - cluesCount
      in digLoop sz maxToRemove indices board 0)"

section \<open>Violation detector\<close>

text \<open>
  \<^verbatim>\<open>errors\<close> is an object used as a set of keys \<^verbatim>\<open>"r-c"\<close>; the key determines the cell,
  so the model keeps the set of cells. \<^verbatim>\<open>seen\<close> maps a value to the cells of the group
  that hold it, in the order they were met; a cell read as \<^verbatim>\<open>undefined\<close> (\<open>None\<close>) is
  not \<^verbatim>\<open>=== 0\<close> and gets a bucket of its own.
\<close>

type_synonym cellset = "(nat \<times> nat) set"

type_synonym buckets = "(nat option \<times> (nat \<times> nat) list) list"

fun pushSeen :: "buckets \<Rightarrow> nat option \<Rightarrow> nat \<times> nat \<Rightarrow> buckets" where
  "pushSeen [] v cell = [(v, [cell])]"
| "pushSeen ((k, cells) # rest) v cell =
     (if k = v then (k, cells @ [cell]) # rest else (k, cells) # pushSeen rest v cell)"

fun collectSeen :: "grid \<Rightarrow> (nat \<times> nat) list \<Rightarrow> buckets \<Rightarrow> error + buckets" where
  "collectSeen board [] seen = Inr seen"
| "collectSeen board ((r, c) # rest) seen =
     (case cellAt board r c of
        Inl e \<Rightarrow> Inl e
      | Inr v \<Rightarrow>
         if v = Some 0 then collectSeen board rest seen
         else collectSeen board rest (pushSeen seen v (r, c)))"

text \<open>\<^verbatim>\<open>Object.values(seen).forEach(...)\<close>: every bucket with more than one cell marks its cells.\<close>

fun markSeen :: "buckets \<Rightarrow> cellset \<Rightarrow> cellset" where
  "markSeen [] errors = errors"
| "markSeen ((v, cells) # rest) errors =
     markSeen rest (if length cells > 1 then fold insert cells errors else errors)"

definition checkGroup :: "grid \<Rightarrow> (nat \<times> nat) list \<Rightarrow> cellset \<Rightarrow> error + cellset" where
  "checkGroup board cells errors =
     (case collectSeen board cells [] of
        Inl e \<Rightarrow> Inl e
      | Inr seen \<Rightarrow> Inr (markSeen seen errors))"

fun checkGroups :: "grid \<Rightarrow> (nat \<times> nat) list list \<Rightarrow> cellset \<Rightarrow> error + cellset" where
  "checkGroups board [] errors = Inr errors"
| "checkGroups board (cells # rest) errors =
     (case checkGroup board cells errors of
        Inl e \<Rightarrow> Inl e
      | Inr errors' \<Rightarrow> checkGroups board rest errors')"

text \<open>
  The block loops step by the block dimension:
  \<^verbatim>\<open>for (let br = 0; br < size; br += blockRows)\<close>. The step is 2 or 3; the guard
  \<open>0 < step\<close> only makes the function total.
\<close>

function blockStarts :: "nat \<Rightarrow> nat \<Rightarrow> nat \<Rightarrow> nat list" where
  "blockStarts sz step b =
     (if b < sz \<and> 0 < step then b # blockStarts sz step (b + step) else [])"
  by pat_completeness auto
termination blockStarts
  by (relation "measure (\<lambda>(sz, step, b). sz - b)") auto

declare blockStarts.simps [simp del]

definition computeErrors :: "grid \<Rightarrow> nat \<Rightarrow> error + cellset" where
  "computeErrors board sz =
     (case getBlockDimensions sz of (blockRows, blockCols) \<Rightarrow>
        (case checkGroups board (map (\<lambda>r. rowCells r sz) [0..<sz]) {} of
           Inl e \<Rightarrow> Inl e
         | Inr errors1 \<Rightarrow>
            (case checkGroups board (map (\<lambda>c. colCells c sz) [0..<sz]) errors1 of
               Inl e \<Rightarrow> Inl e
             | Inr errors2 \<Rightarrow>
                checkGroups board
                  (map (\<lambda>(br, bc). blockCells br bc blockRows blockCols)
                     (List.product (blockStarts sz blockRows 0) (blockStarts sz blockCols 0)))
                  errors2)))"

section \<open>Game state\<close>

text \<open>
  The provider's React state, one field per \<^verbatim>\<open>useState\<close>. \<^verbatim>\<open>size\<close> is \<^verbatim>\<open>null\<close> before
  the first game; in every place the engine uses it (\<^verbatim>\<open>num > size\<close>, \<^verbatim>\<open>r < size\<close>,
  \<^verbatim>\<open>!size\<close>, \<^verbatim>\<open>size === 6\<close>) \<^verbatim>\<open>null\<close> behaves as \<open>0\<close>, which is how \<open>gameSize\<close>
  holds it. \<^verbatim>\<open>hintCell\<close> is the key \<^verbatim>\<open>"r-c"\<close> or \<^verbatim>\<open>null\<close>. Local storage and the timer
  are not part of the engine.
\<close>

datatype status = Idle | Playing | Completed

record game =
  mode :: "string option"
  gameSize :: nat
  solutionBoard :: grid
  initialBoard :: grid
  board :: grid
  status :: status
  errors :: cellset
  elapsed :: nat
  hintCell :: "(nat \<times> nat) option"

text \<open>The state before the first game: the initial values of the \<^verbatim>\<open>useState\<close> calls.\<close>

definition idleGame :: game where
  "idleGame = \<lparr>mode = None, gameSize = 0, solutionBoard = [], initialBoard = [], board = [],
               status = Idle, errors = {}, elapsed = 0, hintCell = None\<rparr>"

definition startNewGame :: "string \<Rightarrow> (nat \<Rightarrow> nat) \<Rightarrow> game \<Rightarrow> error + game" where
  "startNewGame newMode rnd s =
     (let isEasy = (newMode = ''easy'');
          solution = (if isEasy then SOLUTION_6 else SOLUTION_9);
          clues = (if isEasy then 18 else 30)
      in (case makeUniquePuzzleFromSolution solution clues rnd of
            Inl e \<Rightarrow> Inl e
          | Inr puzzle \<Rightarrow>
             Inr (s\<lparr>mode := Some newMode,
                    gameSize := (if isEasy then 6 else 9),
                    solutionBoard := clone2D solution,
                    initialBoard := clone2D puzzle,
                    board := clone2D puzzle,
                    errors := {},
                    elapsed := 0,
                    status := Playing,
                    hintCell := None\<rparr>)))"

text \<open>
  The raw value of an edit is the text of the input field. \<open>EmptyString\<close> is \<^verbatim>\<open>""\<close>;
  otherwise \<^verbatim>\<open>Number(value)\<close> either passes \<^verbatim>\<open>Number.isInteger\<close> (\<open>IntegerValue n\<close>) or
  does not (\<open>NotInteger\<close>: a fraction, \<^verbatim>\<open>NaN\<close>, an infinity). \<open>parseValue\<close> is the
  block of \<^verbatim>\<open>updateCell\<close> that turns the raw value into \<^verbatim>\<open>num\<close>; \<open>None\<close> is its
  \<^verbatim>\<open>return\<close>.
\<close>

datatype rawValue = EmptyString | IntegerValue int | NotInteger

definition parseValue :: "rawValue \<Rightarrow> nat \<Rightarrow> nat option" where
  "parseValue v sz =
     (case v of
        EmptyString \<Rightarrow> Some 0
      | NotInteger \<Rightarrow> None
      | IntegerValue n \<Rightarrow> if n < 1 \<or> n > int sz then None else Some (nat n))"

definition updateCell :: "nat \<Rightarrow> nat \<Rightarrow> rawValue \<Rightarrow> game \<Rightarrow> error + game" where
  "updateCell row col v s =
     (if status s \<noteq> Playing then Inr s
      else if length (board s) = 0 then Inr s
      else
        (case cellAt (initialBoard s) row col of
           Inl e \<Rightarrow> Inl e
         | Inr clue \<Rightarrow>
            if clue \<noteq> Some 0 then Inr s
            else
              (case parseValue v (gameSize s) of
                 None \<Rightarrow> Inr s
               | Some num \<Rightarrow>
                  (case setCell (clone2D (board s)) row col num of
                     Inl e \<Rightarrow> Inl e
                   | Inr next \<Rightarrow>
                      (case computeErrors next (gameSize s) of
                         Inl e \<Rightarrow> Inl e
                       | Inr nextErrors \<Rightarrow>
                          (let hasEmpty = (\<exists>r \<in> set next. 0 \<in> set r);
                               hasErrors = (nextErrors \<noteq> {})
                           in Inr (s\<lparr>board := next,
                                     errors := nextErrors,
                                     hintCell := None,
                                     status := (if \<not> hasEmpty \<and> \<not> hasErrors
                                                then Completed else Playing)\<rparr>)))))))"

text \<open>
  The candidate loop of \<^verbatim>\<open>giveHint\<close> for one cell: \<^verbatim>\<open>candidates\<close> collects the values
  that leave the cell out of the violation set, and the loop breaks once it holds two.
\<close>

fun tryCandidates :: "grid \<Rightarrow> nat \<Rightarrow> nat \<Rightarrow> nat \<Rightarrow> nat list \<Rightarrow> nat list \<Rightarrow> error + nat list" where
  "tryCandidates b sz r c [] candidates = Inr candidates"
| "tryCandidates b sz r c (v # vs) candidates =
     (case setCell (clone2D b) r c v of
        Inl e \<Rightarrow> Inl e
      | Inr temp \<Rightarrow>
         (case computeErrors temp sz of
            Inl e \<Rightarrow> Inl e
          | Inr tempErrors \<Rightarrow>
             (let candidates' = (if (r, c) \<notin> tempErrors then candidates @ [v] else candidates)
              in if length candidates' > 1 then Inr candidates'
                 else tryCandidates b sz r c vs candidates')))"

fun hintScan :: "grid \<Rightarrow> nat \<Rightarrow> (nat \<times> nat) list \<Rightarrow> error + (nat \<times> nat) option" where
  "hintScan b sz [] = Inr None"
| "hintScan b sz ((r, c) # rest) =
     (case cellAt b r c of
        Inl e \<Rightarrow> Inl e
      | Inr v \<Rightarrow>
         if v \<noteq> Some 0 then hintScan b sz rest
         else
           (case tryCandidates b sz r c [1..<sz + 1] [] of
              Inl e \<Rightarrow> Inl e
            | Inr candidates \<Rightarrow>
               if length candidates = 1 then Inr (Some (r, c))
               else hintScan b sz rest))"

definition giveHint :: "game \<Rightarrow> error + game" where
  "giveHint s =
     (if status s \<noteq> Playing then Inr s
      else if length (board s) = 0 then Inr s
      else if gameSize s = 0 then Inr s
      else
        (case hintScan (board s) (gameSize s) (allCells (gameSize s)) of
           Inl e \<Rightarrow> Inl e
         | Inr None \<Rightarrow> Inr s
         | Inr (Some cell) \<Rightarrow> Inr (s\<lparr>hintCell := Some cell\<rparr>)))"

text \<open>A sequence of edits, one \<^verbatim>\<open>updateCell\<close> call after the other; an exception ends it.\<close>

fun runUpdates :: "(nat \<times> nat \<times> rawValue) list \<Rightarrow> game \<Rightarrow> error + game" where
  "runUpdates [] s = Inr s"
| "runUpdates ((row, col, v) # rest) s =
     (case updateCell row col v s of
        Inl e \<Rightarrow> Inl e
      | Inr s' \<Rightarrow> runUpdates rest s')"

section \<open>Notions of the specification\<close>

text \<open>
  The specification speaks of grids that are \<open>size \<times> size\<close> and of a value occurring in a
  row, a column or a box. These are its notions, written down independently of the code.
\<close>

definition squareGrid :: "nat \<Rightarrow> grid \<Rightarrow> bool" where
  "squareGrid sz g \<longleftrightarrow> length g = sz \<and> list_all (\<lambda>row. length row = sz) g"

definition occursInRow :: "grid \<Rightarrow> nat \<Rightarrow> nat \<Rightarrow> nat \<Rightarrow> bool" where
  "occursInRow g sz row num \<longleftrightarrow> (\<exists>c \<in> {0..<sz}. g ! row ! c = num)"

definition occursInCol :: "grid \<Rightarrow> nat \<Rightarrow> nat \<Rightarrow> nat \<Rightarrow> bool" where
  "occursInCol g sz col num \<longleftrightarrow> (\<exists>r \<in> {0..<sz}. g ! r ! col = num)"

definition occursInBox :: "grid \<Rightarrow> nat \<Rightarrow> nat \<Rightarrow> nat \<Rightarrow> nat \<Rightarrow> bool" where
  "occursInBox g sz row col num \<longleftrightarrow>
     (case getBlockDimensions sz of (blockRows, blockCols) \<Rightarrow>
        (\<exists>r \<in> {row - row mod blockRows ..< row - row mod blockRows + blockRows}.
         \<exists>c \<in> {col - col mod blockCols ..< col - col mod blockCols + blockCols}.
           g ! r ! c = num))"

text \<open>A 6 \<times> 6 puzzle with two empty cells, used to run the functions on a concrete input.\<close>

definition demoGrid6 :: grid where
  "demoGrid6 =
    [[0, 2, 3, 4, 5, 6],
     [4, 5, 6, 1, 2, 3],
     [2, 3, 4, 5, 6, 1],
     [5, 6, 1, 2, 3, 4],
     [3, 4, 5, 6, 1, 2],
     [6, 1, 2, 3, 4, 0]]"

text \<open>
  The violation set of the specification: the cells that hold a value and share it with
  another cell of their row, their column or their box. The box of a cell is named by
  its origin.
\<close>

definition cellVal :: "grid \<Rightarrow> nat \<times> nat \<Rightarrow> nat" where
  "cellVal g cell = g ! fst cell ! snd cell"

definition boxOrigin :: "nat \<Rightarrow> nat \<times> nat \<Rightarrow> nat \<times> nat" where
  "boxOrigin sz cell =
     (case getBlockDimensions sz of (blockRows, blockCols) \<Rightarrow>
        (fst cell - fst cell mod blockRows, snd cell - snd cell mod blockCols))"

definition violations :: "grid \<Rightarrow> nat \<Rightarrow> cellset" where
  "violations g sz =
     {cell \<in> {0..<sz} \<times> {0..<sz}. cellVal g cell \<noteq> 0 \<and>
        (\<exists>other \<in> {0..<sz} \<times> {0..<sz}. other \<noteq> cell \<and> cellVal g other = cellVal g cell \<and>
           (fst other = fst cell \<or> snd other = snd cell \<or> boxOrigin sz other = boxOrigin sz cell))}"

text \<open>A board with the value 1 at \<open>(0, 3)\<close> and an empty cell at \<open>(0, 0)\<close>.\<close>

definition duplicateBoard :: grid where
  "duplicateBoard =
    [[0, 2, 3, 1, 5, 6],
     [4, 5, 6, 0, 2, 3],
     [2, 3, 4, 5, 6, 1],
     [5, 6, 1, 2, 3, 4],
     [3, 4, 5, 6, 1, 2],
     [6, 1, 2, 3, 4, 5]]"

text \<open>
  A game in progress: the size is one of the two supported sizes and both the initial
  board and the working board are \<open>size \<times> size\<close>. A clue is a cell that is nonzero in the
  initial board; \<open>cluesKept s s'\<close> says that the working board of \<open>s'\<close> holds, at every
  clue of \<open>s\<close>, the value of the initial board of \<open>s\<close>.
\<close>

definition gameOk :: "game \<Rightarrow> bool" where
  "gameOk s \<longleftrightarrow>
     (gameSize s = 6 \<or> gameSize s = 9) \<and>
     squareGrid (gameSize s) (initialBoard s) \<and>
     squareGrid (gameSize s) (board s)"

definition isClue :: "game \<Rightarrow> nat \<times> nat \<Rightarrow> bool" where
  "isClue s cell \<longleftrightarrow>
     fst cell < gameSize s \<and> snd cell < gameSize s \<and> cellVal (initialBoard s) cell \<noteq> 0"

definition cluesKept :: "game \<Rightarrow> game \<Rightarrow> bool" where
  "cluesKept s s' \<longleftrightarrow>
     list_all (\<lambda>cell. isClue s cell \<longrightarrow> cellVal (board s') cell = cellVal (initialBoard s) cell)
       (allCells (gameSize s))"

text \<open>States to run the functions on: a 6 \<times> 6 game with two empty cells and one with a
  single empty cell.\<close>

definition demoGame :: game where
  "demoGame = \<lparr>mode = Some ''easy'', gameSize = 6, solutionBoard = SOLUTION_6,
                initialBoard = demoGrid6, board = demoGrid6, status = Playing,
                errors = {}, elapsed = 0, hintCell = None\<rparr>"

definition lastCellGame :: game where
  "lastCellGame = \<lparr>mode = Some ''easy'', gameSize = 6, solutionBoard = SOLUTION_6,
                    initialBoard = putCell SOLUTION_6 0 0 0, board = putCell SOLUTION_6 0 0 0,
                    status = Playing, errors = {}, elapsed = 0, hintCell = None\<rparr>"

text \<open>
  The hint of the specification. A value is a non-conflicting candidate for a cell when
  writing it there leaves the cell outside the violation set; a cell qualifies when it
  is empty and has exactly one such candidate among \<open>1..size\<close>; the hint is the
  qualifying cell that no qualifying cell precedes in row-major order.
\<close>

definition okCandidate :: "grid \<Rightarrow> nat \<Rightarrow> nat \<times> nat \<Rightarrow> nat \<Rightarrow> bool" where
  "okCandidate g sz cell v \<longleftrightarrow> cell \<notin> violations (putCell g (fst cell) (snd cell) v) sz"

definition qualifies :: "grid \<Rightarrow> nat \<Rightarrow> nat \<times> nat \<Rightarrow> bool" where
  "qualifies g sz cell \<longleftrightarrow>
     fst cell < sz \<and> snd cell < sz \<and> cellVal g cell = 0 \<and>
     card {v \<in> {1..sz}. okCandidate g sz cell v} = 1"

definition precedes :: "nat \<times> nat \<Rightarrow> nat \<times> nat \<Rightarrow> bool" where
  "precedes cell' cell \<longleftrightarrow> fst cell' < fst cell \<or> (fst cell' = fst cell \<and> snd cell' < snd cell)"

definition isFirstHint :: "grid \<Rightarrow> nat \<Rightarrow> nat \<times> nat \<Rightarrow> bool" where
  "isFirstHint g sz cell \<longleftrightarrow>
     qualifies g sz cell \<and> (\<forall>cell'. precedes cell' cell \<longrightarrow> \<not> qualifies g sz cell')"

text \<open>
  The solutions of a grid, as the specification counts them. A grid of the data model
  holds values in \<open>[0, size]\<close>. A completion of \<open>g\<close> is a \<open>size \<times> size\<close> grid with every
  cell in \<open>[1, size]\<close> that keeps the nonzero cells of \<open>g\<close> and has no row, column or box
  duplicate; the actual number of solutions is the number of completions. A grid has
  no duplicates among its nonzero cells exactly when its violation set is empty.
\<close>

definition gridValues :: "nat \<Rightarrow> grid \<Rightarrow> bool" where
  "gridValues sz g \<longleftrightarrow> (\<forall>cell \<in> {0..<sz} \<times> {0..<sz}. cellVal g cell \<le> sz)"

definition isCompletion :: "nat \<Rightarrow> grid \<Rightarrow> grid \<Rightarrow> bool" where
  "isCompletion sz g h \<longleftrightarrow>
     squareGrid sz h \<and>
     (\<forall>cell \<in> {0..<sz} \<times> {0..<sz}.
        1 \<le> cellVal h cell \<and> cellVal h cell \<le> sz \<and>
        (cellVal g cell \<noteq> 0 \<longrightarrow> cellVal h cell = cellVal g cell)) \<and>
     violations h sz = {}"

definition completions :: "nat \<Rightarrow> grid \<Rightarrow> grid set" where
  "completions sz g = {h. isCompletion sz g h}"

section \<open>Auxiliary notions for the proofs\<close>

text \<open>
  What a bucket list holds for a key, the shape the bucket list keeps, and the cells
  that one group marks.
\<close>

definition lookupSeen :: "buckets \<Rightarrow> nat option \<Rightarrow> (nat \<times> nat) list" where
  "lookupSeen seen k = (case map_of seen k of None \<Rightarrow> [] | Some cells \<Rightarrow> cells)"

definition bucketsOk :: "buckets \<Rightarrow> bool" where
  "bucketsOk seen \<longleftrightarrow> distinct (map fst seen) \<and> (\<forall>(k, cells) \<in> set seen. cells \<noteq> [])"

definition groupMarks :: "grid \<Rightarrow> (nat \<times> nat) list \<Rightarrow> cellset" where
  "groupMarks g cells =
     {cell \<in> set cells. cellVal g cell \<noteq> 0 \<and>
        (\<exists>other \<in> set cells. other \<noteq> cell \<and> cellVal g other = cellVal g cell)}"

text \<open>The state after an edit that \<^verbatim>\<open>updateCell\<close> applies.\<close>

definition editedGame :: "game \<Rightarrow> nat \<Rightarrow> nat \<Rightarrow> nat \<Rightarrow> game" where
  "editedGame s row col num =
     (let next = putCell (board s) row col num;
          nextErrors = violations next (gameSize s)
      in s\<lparr>board := next, errors := nextErrors, hintCell := None,
            status := (if zeroCount next = 0 \<and> nextErrors = {} then Completed else Playing)\<rparr>)"

text \<open>A value conflicts at a cell when another cell of its row, column or box holds it.\<close>

definition conflictAt :: "grid \<Rightarrow> nat \<Rightarrow> nat \<times> nat \<Rightarrow> nat \<Rightarrow> bool" where
  "conflictAt g sz cell v \<longleftrightarrow>
     (\<exists>other \<in> {0..<sz} \<times> {0..<sz}. other \<noteq> cell \<and> cellVal g other = v \<and>
        (fst other = fst cell \<or> snd other = snd cell \<or> boxOrigin sz other = boxOrigin sz cell))"

section \<open>Termination of the search\<close>

text \<open>
  Every call of \<open>backtrack\<close> that returns hands back the grid it was given, and
  \<open>tryNums\<close> hands back its grid with at most the chosen cell cleared. This holds on
  the domain of the recursion, and it makes the number of empty cells a measure.
\<close>

lemma setCell_Inr:
  "setCell g r c v = Inr b \<longleftrightarrow> r < length g \<and> c < length (g ! r) \<and> b = putCell g r c v"
  by (auto simp: setCell_def putCell_def)

lemma filter_update_length:
  "i < length xs \<Longrightarrow>
     length (filter P (xs[i := v])) + (if P (xs ! i) then 1 else 0)
       = length (filter P xs) + (if P v then 1 else 0)"
proof (induction xs arbitrary: i)
  case Nil
  then show ?case by simp
next
  case (Cons x xs)
  then show ?case by (cases i) auto
qed

lemma sum_list_update_add:
  fixes xs :: "nat list"
  shows "i < length xs \<Longrightarrow> sum_list (xs[i := y]) + xs ! i = sum_list xs + y"
proof (induction xs arbitrary: i)
  case Nil
  then show ?case by simp
next
  case (Cons x xs)
  then show ?case by (cases i) auto
qed

lemma zeroCount_putCell:
  assumes "r < length g" "c < length (g ! r)"
  shows "zeroCount (putCell g r c v) + (if g ! r ! c = 0 then 1 else 0)
           = zeroCount g + (if v = 0 then 1 else 0)"
proof -
  let ?f = "\<lambda>row. length (filter (\<lambda>v. v = (0::nat)) row)"
  have "map ?f (putCell g r c v) = (map ?f g)[r := ?f ((g ! r)[c := v])]"
    by (simp add: putCell_def map_update)
  then have "zeroCount (putCell g r c v) + ?f (g ! r)
               = zeroCount g + ?f ((g ! r)[c := v])"
    using assms(1) sum_list_update_add [of r "map ?f g" "?f ((g ! r)[c := v])"]
    by (simp add: zeroCount_def)
  moreover have "?f ((g ! r)[c := v]) + (if g ! r ! c = 0 then 1 else 0)
                   = ?f (g ! r) + (if v = 0 then 1 else 0)"
    using assms(2) by (rule filter_update_length)
  ultimately show ?thesis by linarith
qed

lemma putCell_putCell: "putCell (putCell g r c v) r c w = putCell g r c w"
  by (cases "r < length g") (simp_all add: putCell_def list_update_beyond)

lemma putCell_same:
  "r < length g \<Longrightarrow> c < length (g ! r) \<Longrightarrow> g ! r ! c = v \<Longrightarrow> putCell g r c v = g"
  by (metis list_update_id putCell_def)

lemma cellAt_Some:
  "cellAt g r c = Inr (Some v) \<longleftrightarrow> r < length g \<and> c < length (g ! r) \<and> g ! r ! c = v"
  by (auto simp: cellAt_def)

lemma firstEmpty_Some:
  "firstEmpty g cells = Inr (Some (r, c)) \<Longrightarrow> cellAt g r c = Inr (Some 0)"
  by (induction g cells rule: firstEmpty.induct) (auto split: sum.splits if_splits)

lemma backtrack_tryNums_board:
  "backtrack_tryNums_dom (Inl (sz, limit, g, count)) \<Longrightarrow>
     backtrack sz limit g count = Inr (b', n') \<Longrightarrow> b' = g"
  "backtrack_tryNums_dom (Inr (sz, limit, row, col, num, g, count)) \<Longrightarrow>
     tryNums sz limit row col num g count = Inr (b', n') \<Longrightarrow>
       b' = g \<or> b' = putCell g row col 0"
proof (induction sz limit g count and sz limit row col num g count
       arbitrary: b' n' and b' n' rule: backtrack_tryNums.pinduct)
  case (1 sz limit g count)
  show ?case
  proof (cases "limit \<le> count")
    case True
    with 1(1,3) show ?thesis by (simp add: backtrack.psimps)
  next
    case False
    show ?thesis
    proof (cases "firstEmpty g (allCells sz)")
      case (Inl e)
      with False 1(1,3) show ?thesis by (simp add: backtrack.psimps)
    next
      case (Inr found)
      show ?thesis
      proof (cases found)
        case None
        with Inr False 1(1,3) show ?thesis by (simp add: backtrack.psimps)
      next
        case (Some rc)
        obtain row col where rc: "rc = (row, col)" by (cases rc)
        have run: "tryNums sz limit row col 1 g count = Inr (b', n')"
          using Inr Some rc False 1(1,3) by (simp add: backtrack.psimps)
        have "b' = g \<or> b' = putCell g row col 0"
          using 1(2) [OF False Inr Some rc [symmetric] run] .
        moreover have "putCell g row col 0 = g"
          using firstEmpty_Some [of g "allCells sz" row col] Inr Some rc
          by (simp add: cellAt_Some putCell_same)
        ultimately show ?thesis by auto
      qed
    qed
  qed
next
  case (2 sz limit row col num g count)
  show ?case
  proof (cases "num \<le> sz")
    case False
    with 2(1,5) show ?thesis by (simp add: tryNums.psimps)
  next
    case le: True
    show ?thesis
    proof (cases "isSafe g row col num sz")
      case (Inl e)
      with le 2(1,5) show ?thesis by (simp add: tryNums.psimps)
    next
      case (Inr safe)
      show ?thesis
      proof (cases safe)
        case False
        then have unsafe: "safe = False" by simp
        with Inr le 2(1,5) have "tryNums sz limit row col (num + 1) g count = Inr (b', n')"
          by (simp add: tryNums.psimps)
        with 2(4) [OF le Inr unsafe] show ?thesis .
      next
        case True
        then have safe: "safe = True" by simp
        show ?thesis
        proof (cases "setCell g row col num")
          case (Inl e)
          with True Inr le 2(1,5) show ?thesis by (simp add: tryNums.psimps)
        next
          case placed: (Inr placed)
          show ?thesis
          proof (cases "backtrack sz limit placed count")
            case (Inl e)
            with placed True Inr le 2(1,5) show ?thesis by (simp add: tryNums.psimps)
          next
            case inner: (Inr res)
            obtain b1 n1 where res: "res = (b1, n1)" by (cases res)
            have b1: "b1 = placed"
              using 2(2) [OF le Inr safe placed] inner res by simp
            show ?thesis
            proof (cases "setCell b1 row col 0")
              case (Inl e)
              with inner res placed True Inr le 2(1,5) show ?thesis by (simp add: tryNums.psimps)
            next
              case cleared: (Inr b2)
              have b2: "b2 = putCell g row col 0"
                using cleared placed b1 by (simp add: setCell_Inr putCell_putCell)
              show ?thesis
              proof (cases "limit \<le> n1")
                case True
                with cleared inner res placed safe Inr le 2(1,5) b2 show ?thesis
                  by (simp add: tryNums.psimps)
              next
                case False
                with cleared inner res placed safe Inr le 2(1,5)
                have "tryNums sz limit row col (num + 1) b2 n1 = Inr (b', n')"
                  by (simp add: tryNums.psimps)
                from 2(3) [OF le Inr safe placed inner res [symmetric] cleared False this]
                show ?thesis by (auto simp: b2 putCell_putCell)
              qed
            qed
          qed
        qed
      qed
    qed
  qed
qed

lemma backtrack_tryNums_dom_all: "All backtrack_tryNums_dom"
proof (relation "measures
    [\<lambda>x. case x of
            Inl (sz, limit, g, count) \<Rightarrow> 2 * zeroCount g
          | Inr (sz, limit, row, col, num, g, count) \<Rightarrow>
              2 * (zeroCount (putCell g row col 1) + (if num = 0 then 2 else 0)) + 1,
     \<lambda>x. case x of
            Inl (sz, limit, g, count) \<Rightarrow> 0
          | Inr (sz, limit, row, col, num, g, count) \<Rightarrow> sz + 1 - num]", goal_cases)
  case 1
  then show ?case by simp
next
  case (2 sz limit g count found rc row col)
  then have "cellAt g row col = Inr (Some 0)"
    using firstEmpty_Some [of g "allCells sz" row col] by simp
  then have "zeroCount (putCell g row col 1) + 1 = zeroCount g"
    using zeroCount_putCell [of row g col 1] by (simp add: cellAt_Some)
  then show ?case by simp
next
  case (3 sz limit row col num g count safe placed)
  then have "zeroCount placed \<le> zeroCount (putCell g row col 1) + (if num = 0 then 1 else 0)"
    using zeroCount_putCell [of row g col 1] zeroCount_putCell [of row g col num]
    by (auto simp: setCell_Inr split: if_splits)
  then show ?case by (auto split: if_splits)
next
  case (4 sz limit row col num g count safe placed res b1 n1 b2)
  then have "b1 = placed"
    using backtrack_tryNums_board(1) [of sz limit placed count b1 n1] by simp
  with 4 have "putCell b2 row col 1 = putCell g row col 1"
    by (simp add: setCell_Inr putCell_putCell)
  with 4 show ?case by (auto split: if_splits)
next
  case (5 sz limit row col num g count safe)
  then show ?case by (auto split: if_splits)
qed

termination backtrack
  by (rule backtrack_tryNums_dom_all)

declare backtrack.simps [simp del] tryNums.simps [simp del]

section \<open>The constraint checker is correct\<close>

lemma squareGrid_nth: "squareGrid sz g \<Longrightarrow> r < sz \<Longrightarrow> length (g ! r) = sz"
  by (simp add: squareGrid_def list_all_length)

lemma squareGrid_length: "squareGrid sz g \<Longrightarrow> length g = sz"
  by (simp add: squareGrid_def)

lemma cellAt_square:
  "squareGrid sz g \<Longrightarrow> r < sz \<Longrightarrow> c < sz \<Longrightarrow> cellAt g r c = Inr (Some (g ! r ! c))"
  by (simp add: cellAt_def squareGrid_nth squareGrid_length)

lemma scanFor_square:
  assumes "squareGrid sz g" and "\<forall>(r, c) \<in> set cells. r < sz \<and> c < sz"
  shows "scanFor g num cells = Inr (\<forall>(r, c) \<in> set cells. g ! r ! c \<noteq> num)"
  using assms(2)
proof (induction cells)
  case Nil
  then show ?case by simp
next
  case (Cons rc cells)
  obtain r c where rc: "rc = (r, c)" by (cases rc)
  with Cons.prems have "r < sz" "c < sz" by auto
  then have "cellAt g r c = Inr (Some (g ! r ! c))"
    using assms(1) by (simp add: cellAt_square)
  with Cons rc show ?case by auto
qed

lemma blockStart_bound:
  "sz = 6 \<or> sz = 9 \<Longrightarrow> row < sz \<Longrightarrow> row - row mod fst (getBlockDimensions sz) + fst (getBlockDimensions sz) \<le> sz"
  "sz = 6 \<or> sz = 9 \<Longrightarrow> col < sz \<Longrightarrow> col - col mod snd (getBlockDimensions sz) + snd (getBlockDimensions sz) \<le> sz"
  by (auto simp: getBlockDimensions_def) presburger+

lemma isSafe_square:
  assumes "squareGrid sz g" "sz = 6 \<or> sz = 9" "row < sz" "col < sz"
  shows "isSafe g row col num sz =
           Inr (\<not> (occursInRow g sz row num \<or> occursInCol g sz col num \<or> occursInBox g sz row col num))"
proof -
  obtain blockRows blockCols where bd: "getBlockDimensions sz = (blockRows, blockCols)"
    by (cases "getBlockDimensions sz")
  let ?sr = "row - row mod blockRows" and ?sc = "col - col mod blockCols"
  have bound: "?sr + blockRows \<le> sz" "?sc + blockCols \<le> sz"
    using blockStart_bound [OF assms(2)] assms(3,4) bd by auto
  have rowScan: "scanFor g num (rowCells row sz) = Inr (\<not> occursInRow g sz row num)"
    using scanFor_square [OF assms(1), of "rowCells row sz" num] assms(3)
    by (auto simp: rowCells_def occursInRow_def)
  have colScan: "scanFor g num (colCells col sz) = Inr (\<not> occursInCol g sz col num)"
    using scanFor_square [OF assms(1), of "colCells col sz" num] assms(4)
    by (auto simp: colCells_def occursInCol_def)
  have boxScan: "scanFor g num (blockCells ?sr ?sc blockRows blockCols)
                   = Inr (\<not> occursInBox g sz row col num)"
    using scanFor_square [OF assms(1), of "blockCells ?sr ?sc blockRows blockCols" num] bound
    by (auto simp: blockCells_def occursInBox_def bd)
  show ?thesis
    by (simp add: isSafe_def bd rowScan colScan boxScan Let_def split: bool.splits)
qed

text \<open>
  Claim C3. On a \<open>size \<times> size\<close> grid with \<open>size\<close> 6 or 9 and a cell inside the grid,
  \<^verbatim>\<open>isSafe\<close> returns a boolean, and it returns \<^verbatim>\<open>false\<close> exactly when the value already
  occurs in the cell's row, in its column, or in the box of \<open>blockRows \<times> blockCols\<close> cells
  whose origin is \<open>(row - row mod blockRows, col - col mod blockCols)\<close>. The function has
  no other result than the boolean: the source never assigns to the board, and
  \<open>isSafe\<close> returns no board.
\<close>

theorem isSafe_false_iff:
  assumes "squareGrid sz g" "sz = 6 \<or> sz = 9" "row < sz" "col < sz"
  shows "(\<exists>b. isSafe g row col num sz = Inr b) \<and>
         (isSafe g row col num sz = Inr False \<longleftrightarrow>
            occursInRow g sz row num \<or> occursInCol g sz col num \<or> occursInBox g sz row col num)"
  using isSafe_square [OF assms] by simp

theorem isSafe_false_iff_witness:
  "squareGrid 6 SOLUTION_6 \<and> ((6::nat) = 6 \<or> (6::nat) = 9) \<and> (0::nat) < 6 \<and>
   occursInRow SOLUTION_6 6 0 1 \<and> isSafe SOLUTION_6 0 0 1 6 = Inr False"
proof -
  have sq: "squareGrid 6 SOLUTION_6" by code_simp
  have occ: "occursInRow SOLUTION_6 6 0 1" by code_simp
  have "isSafe SOLUTION_6 0 0 1 6 = Inr False"
    using isSafe_false_iff [of 6 SOLUTION_6 0 0 1] sq occ by simp
  with sq occ show ?thesis by simp
qed

section \<open>The solution counter gives the board back as it was\<close>

lemma firstEmpty_square:
  assumes "squareGrid sz g" and "\<forall>(r, c) \<in> set cells. r < sz \<and> c < sz"
  shows "firstEmpty g cells = Inr (find (\<lambda>(r, c). g ! r ! c = 0) cells)"
  using assms(2)
proof (induction cells)
  case Nil
  then show ?case by simp
next
  case (Cons rc cells)
  obtain r c where rc: "rc = (r, c)" by (cases rc)
  with Cons.prems have "r < sz" "c < sz" by auto
  then have "cellAt g r c = Inr (Some (g ! r ! c))"
    using assms(1) by (simp add: cellAt_square)
  with Cons rc show ?case by auto
qed

lemma set_allCells: "set (allCells sz) = {(r, c). r < sz \<and> c < sz}"
  by (auto simp: allCells_def)

lemma firstEmpty_allCells:
  assumes "squareGrid sz g"
  shows "firstEmpty g (allCells sz) = Inr (find (\<lambda>(r, c). g ! r ! c = 0) (allCells sz))"
  using firstEmpty_square [OF assms, of "allCells sz"] by (simp add: set_allCells)

lemma squareGrid_putCell: "squareGrid sz g \<Longrightarrow> squareGrid sz (putCell g r c v)"
proof -
  assume sq: "squareGrid sz g"
  have "length (putCell g r c v ! n) = sz" if "n < sz" for n
    using sq that by (cases "n = r") (simp_all add: putCell_def squareGrid_def list_all_length)
  with sq show ?thesis by (simp add: squareGrid_def list_all_length putCell_def)
qed

lemma setCell_square:
  "squareGrid sz g \<Longrightarrow> r < sz \<Longrightarrow> c < sz \<Longrightarrow> setCell g r c v = Inr (putCell g r c v)"
  by (simp add: setCell_Inr squareGrid_nth squareGrid_length)

lemma putCell_zero_same:
  "squareGrid sz g \<Longrightarrow> r < sz \<Longrightarrow> c < sz \<Longrightarrow> g ! r ! c = 0 \<Longrightarrow> putCell g r c 0 = g"
  by (simp add: putCell_same squareGrid_nth squareGrid_length)

lemma backtrack_tryNums_returns:
  "squareGrid sz g \<Longrightarrow> sz = 6 \<or> sz = 9 \<Longrightarrow> \<exists>n. backtrack sz limit g k = Inr (g, n)"
  "squareGrid sz g \<Longrightarrow> sz = 6 \<or> sz = 9 \<Longrightarrow> row < sz \<Longrightarrow> col < sz \<Longrightarrow> g ! row ! col = 0 \<Longrightarrow>
     \<exists>n. tryNums sz limit row col num g k = Inr (g, n)"
proof (induction sz limit g k and sz limit row col num g k rule: backtrack_tryNums.induct)
  case (1 sz limit g k)
  note sq = \<open>squareGrid sz g\<close>
  show ?case
  proof (cases "limit \<le> k")
    case True
    then show ?thesis by (simp add: backtrack.simps)
  next
    case False
    have fe: "firstEmpty g (allCells sz) = Inr (find (\<lambda>(r, c). g ! r ! c = 0) (allCells sz))"
      using sq by (rule firstEmpty_allCells)
    show ?thesis
    proof (cases "find (\<lambda>(r, c). g ! r ! c = 0) (allCells sz)")
      case None
      with False fe show ?thesis by (simp add: backtrack.simps)
    next
      case (Some rc)
      obtain row col where rc: "rc = (row, col)" by (cases rc)
      from Some rc have "(row, col) \<in> set (allCells sz)" "g ! row ! col = 0"
        by (auto simp: find_Some_iff in_set_conv_nth)
      then have inr: "row < sz" "col < sz" and z: "g ! row ! col = 0"
        by (auto simp: set_allCells)
      have "\<exists>n. tryNums sz limit row col 1 g k = Inr (g, n)"
        using "1.IH" [OF False fe Some rc [symmetric] sq "1.prems"(2) inr z] .
      with False fe Some rc show ?thesis by (simp add: backtrack.simps)
    qed
  qed
next
  case (2 sz limit row col num g k)
  note sq = \<open>squareGrid sz g\<close> and szs = \<open>sz = 6 \<or> sz = 9\<close>
    and inr = \<open>row < sz\<close> \<open>col < sz\<close> and z = \<open>g ! row ! col = 0\<close>
  show ?case
  proof (cases "num \<le> sz")
    case False
    then show ?thesis by (simp add: tryNums.simps [of sz limit row col num])
  next
    case le: True
    obtain safe where safe: "isSafe g row col num sz = Inr safe"
      using isSafe_square [OF sq szs inr] by blast
    show ?thesis
    proof (cases safe)
      case False
      then have unsafe: "safe = False" by simp
      have "\<exists>n. tryNums sz limit row col (num + 1) g k = Inr (g, n)"
        using "2.IH"(3) [OF le safe unsafe sq szs inr z] .
      with le safe unsafe show ?thesis by (simp add: tryNums.simps [of sz limit row col num])
    next
      case True
      then have st: "safe = True" by simp
      let ?placed = "putCell g row col num"
      have placed: "setCell g row col num = Inr ?placed"
        using sq inr by (rule setCell_square)
      have sqp: "squareGrid sz ?placed" using sq by (rule squareGrid_putCell)
      obtain n1 where inner: "backtrack sz limit ?placed k = Inr (?placed, n1)"
        using "2.IH"(1) [OF le safe st placed sqp szs] by blast
      have cleared: "setCell ?placed row col 0 = Inr g"
        using setCell_square [OF sqp inr, of 0] putCell_zero_same [OF sq inr z]
        by (simp add: putCell_putCell)
      show ?thesis
      proof (cases "limit \<le> n1")
        case True
        with le safe st placed inner cleared show ?thesis
          by (simp add: tryNums.simps [of sz limit row col num])
      next
        case False
        have "\<exists>n. tryNums sz limit row col (num + 1) g n1 = Inr (g, n)"
          using "2.IH"(2) [OF le safe st placed inner refl cleared False sq szs inr z] .
        with False le safe st placed inner cleared show ?thesis
          by (simp add: tryNums.simps [of sz limit row col num])
      qed
    qed
  qed
qed

text \<open>
  Claim C4. Whatever the grid, the size and the limit, a call of \<^verbatim>\<open>countSolutions\<close> that
  returns leaves every cell of the grid with the value it had at entry: each placement
  is cleared again before the loop goes on or leaves early at the limit, and the cell
  it clears was empty when the search picked it. On a \<open>size \<times> size\<close> grid with \<open>size\<close> 6
  or 9 the call does return.
\<close>

theorem countSolutions_restores_grid:
  "(\<forall>g' n. countSolutions g sz limit = Inr (g', n) \<longrightarrow> g' = g) \<and>
   (squareGrid sz g \<and> (sz = 6 \<or> sz = 9) \<longrightarrow> (\<exists>n. countSolutions g sz limit = Inr (g, n)))"
proof -
  have "backtrack_tryNums_dom (Inl (sz, limit, g, 0))"
    using backtrack_tryNums_dom_all by simp
  then have "\<forall>g' n. countSolutions g sz limit = Inr (g', n) \<longrightarrow> g' = g"
    using backtrack_tryNums_board(1) [of sz limit g 0] by (auto simp: countSolutions_def)
  moreover have "squareGrid sz g \<and> (sz = 6 \<or> sz = 9) \<longrightarrow> (\<exists>n. countSolutions g sz limit = Inr (g, n))"
    using backtrack_tryNums_returns(1) [of sz g limit 0] by (auto simp: countSolutions_def)
  ultimately show ?thesis by blast
qed

theorem countSolutions_restores_grid_witness:
  "squareGrid 6 demoGrid6 \<and> ((6::nat) = 6 \<or> (6::nat) = 9) \<and> countSolutions demoGrid6 6 2 = Inr (demoGrid6, 1)"
proof -
  have sq: "squareGrid 6 demoGrid6" by code_simp
  have run: "countSolutions demoGrid6 6 2 = Inr (demoGrid6, 1)" by code_simp
  from countSolutions_restores_grid [of demoGrid6 6 2] sq run show ?thesis by simp
qed

section \<open>The puzzle digger\<close>

lemma clone2D_id: "clone2D g = g"
  by (simp add: clone2D_def)

lemma zeroCount_zero_iff: "zeroCount g = 0 \<longleftrightarrow> (\<forall>row \<in> set g. 0 \<notin> set row)"
proof -
  have "zeroCount g = 0 \<longleftrightarrow> (\<forall>row \<in> set g. filter (\<lambda>v. v = 0) row = [])"
    by (simp add: zeroCount_def)
  also have "\<dots> \<longleftrightarrow> (\<forall>row \<in> set g. \<forall>v \<in> set row. v \<noteq> 0)"
    by (simp only: filter_empty_conv)
  also have "\<dots> \<longleftrightarrow> (\<forall>row \<in> set g. 0 \<notin> set row)"
    by metis
  finally show ?thesis .
qed

lemma complete_no_empty:
  assumes "squareGrid sz g" "zeroCount g = 0"
  shows "find (\<lambda>(r, c). g ! r ! c = 0) (allCells sz) = None"
proof -
  have "g ! r ! c \<noteq> 0" if "r < sz" "c < sz" for r c
  proof -
    have "g ! r \<in> set g" using assms(1) that by (simp add: squareGrid_length)
    moreover have "g ! r ! c \<in> set (g ! r)" using assms(1) that by (simp add: squareGrid_nth)
    ultimately show ?thesis using assms(2) unfolding zeroCount_zero_iff by (metis (full_types))
  qed
  then show ?thesis by (auto simp: find_None_iff set_allCells)
qed

lemma countSolutions_complete:
  assumes "squareGrid sz g" "zeroCount g = 0"
  shows "countSolutions g sz 2 = Inr (g, 1)"
  using firstEmpty_allCells [OF assms(1)] complete_no_empty [OF assms]
  by (simp add: countSolutions_def backtrack.simps)

lemma countSolutions_square:
  assumes "squareGrid sz g" "sz = 6 \<or> sz = 9"
  shows "\<exists>n. countSolutions g sz limit = Inr (g, n)"
  using backtrack_tryNums_returns(1) [OF assms, of limit 0] unfolding countSolutions_def .

lemma set_swapAt:
  "i < length xs \<Longrightarrow> j < length xs \<Longrightarrow> set (swapAt xs i j) \<subseteq> set xs"
proof -
  assume "i < length xs" "j < length xs"
  then have "set (xs[i := xs ! j]) \<subseteq> set xs"
    by (meson insert_subset nth_mem set_update_subset_insert subset_trans order_refl)
  moreover have "set (swapAt xs i j) \<subseteq> insert (xs ! i) (set (xs[i := xs ! j]))"
    unfolding swapAt_def by (rule set_update_subset_insert)
  moreover have "xs ! i \<in> set xs" using \<open>i < length xs\<close> by simp
  ultimately show ?thesis by blast
qed

lemma length_swapAt: "length (swapAt xs i j) = length xs"
  by (simp add: swapAt_def)

lemma set_shuffleLoop:
  "\<forall>i. rnd i \<le> i \<Longrightarrow> k < length xs \<Longrightarrow> set (shuffleLoop rnd k xs) \<subseteq> set xs"
proof (induction k arbitrary: xs)
  case 0
  then show ?case by simp
next
  case (Suc k)
  have j: "rnd (Suc k) < length xs" using Suc.prems by (meson le_less_trans)
  have "set (shuffleLoop rnd k (swapAt xs (Suc k) (rnd (Suc k))))
          \<subseteq> set (swapAt xs (Suc k) (rnd (Suc k)))"
    using Suc.IH [of "swapAt xs (Suc k) (rnd (Suc k))"] Suc.prems by (simp add: length_swapAt)
  also have "\<dots> \<subseteq> set xs" using Suc.prems(2) j by (rule set_swapAt)
  finally show ?case by simp
qed

lemma set_shuffle: "\<forall>i. rnd i \<le> i \<Longrightarrow> set (shuffle rnd xs) \<subseteq> set xs"
proof (cases xs)
  case Nil
  then show ?thesis by (simp add: shuffle_def)
next
  case (Cons x rest)
  assume "\<forall>i. rnd i \<le> i"
  then show ?thesis using set_shuffleLoop [of rnd "length xs - 1" xs] Cons
    by (simp add: shuffle_def)
qed

lemma cell_of_index:
  fixes sz :: nat
  assumes "idx < sz * sz"
  shows "idx div sz < sz" "idx mod sz < sz"
proof -
  have "0 < sz" using assms by (cases sz) auto
  then show "idx mod sz < sz" by simp
  show "idx div sz < sz" using assms by (simp add: less_mult_imp_div_less)
qed


lemma digLoop_invariant:
  assumes "sz = 6 \<or> sz = 9" and "\<forall>idx \<in> set idxs. idx < sz * sz"
    and "squareGrid sz g" and "countSolutions g sz 2 = Inr (g, 1)"
    and "zeroCount g = removed" and "int removed \<le> max 0 m"
  shows "\<exists>p. digLoop sz m idxs g removed = Inr p \<and> squareGrid sz p \<and>
              countSolutions p sz 2 = Inr (p, 1) \<and> int (zeroCount p) \<le> max 0 m"
  using assms(2-)
proof (induction idxs arbitrary: g removed)
  case Nil
  then show ?case by simp
next
  case (Cons idx rest)
  note sq = \<open>squareGrid sz g\<close>
  show ?case
  proof (cases "m \<le> int removed")
    case True
    with Cons.prems show ?thesis by simp
  next
    case False
    let ?r = "idx div sz" and ?c = "idx mod sz"
    have inr: "?r < sz" "?c < sz" using Cons.prems(1) by (simp_all add: cell_of_index)
    have rd: "cellAt g ?r ?c = Inr (Some (g ! ?r ! ?c))" using sq inr by (rule cellAt_square)
    have rest: "\<forall>idx \<in> set rest. idx < sz * sz" using Cons.prems(1) by simp
    show ?thesis
    proof (cases "g ! ?r ! ?c = 0")
      case True
      have "\<exists>p. digLoop sz m rest g removed = Inr p \<and> squareGrid sz p \<and>
              countSolutions p sz 2 = Inr (p, 1) \<and> int (zeroCount p) \<le> max 0 m"
        using Cons.IH [OF rest sq Cons.prems(3,4,5)] .
      with False rd True show ?thesis by (simp add: Let_def)
    next
      case nz: False
      let ?dug = "putCell g ?r ?c 0"
      have dug: "setCell g ?r ?c 0 = Inr ?dug" using sq inr by (rule setCell_square)
      have sqd: "squareGrid sz ?dug" using sq by (rule squareGrid_putCell)
      obtain n where cnt: "countSolutions (clone2D ?dug) sz 2 = Inr (?dug, n)"
        using countSolutions_square [OF sqd assms(1)] by (auto simp: clone2D_id)
      show ?thesis
      proof (cases "n = 1")
        case True
        have zc: "zeroCount ?dug = removed + 1"
          using zeroCount_putCell [of ?r g ?c 0] sq inr nz Cons.prems(4)
          by (simp add: squareGrid_nth squareGrid_length)
        have bound: "int (removed + 1) \<le> max 0 m" using False by simp
        have one: "countSolutions ?dug sz 2 = Inr (?dug, 1)" using cnt True by (simp add: clone2D_id)
        have "\<exists>p. digLoop sz m rest ?dug (removed + 1) = Inr p \<and> squareGrid sz p \<and>
              countSolutions p sz 2 = Inr (p, 1) \<and> int (zeroCount p) \<le> max 0 m"
          using Cons.IH [OF rest sqd one zc bound] .
        with False rd nz dug cnt True show ?thesis by (simp add: Let_def)
      next
        case notone: False
        have undo: "setCell ?dug ?r ?c (g ! ?r ! ?c) = Inr g"
          using setCell_square [OF sqd inr, of "g ! ?r ! ?c"] sq inr
          by (simp add: putCell_putCell putCell_same squareGrid_nth squareGrid_length)
        have "\<exists>p. digLoop sz m rest g removed = Inr p \<and> squareGrid sz p \<and>
              countSolutions p sz 2 = Inr (p, 1) \<and> int (zeroCount p) \<le> max 0 m"
          using Cons.IH [OF rest sq Cons.prems(3,4,5)] .
        with False rd nz dug cnt notone undo show ?thesis by (simp add: Let_def)
      qed
    qed
  qed
qed

lemma makeUniquePuzzle_returns:
  assumes "squareGrid sz solution" and "sz = 6 \<or> sz = 9" and "zeroCount solution = 0"
    and "\<forall>i. rnd i \<le> i"
  shows "\<exists>puzzle. makeUniquePuzzleFromSolution solution cluesCount rnd = Inr puzzle \<and>
           squareGrid sz puzzle"
proof -
  have len: "length solution = sz" using assms(1) by (rule squareGrid_length)
  have idxs: "\<forall>idx \<in> set (shuffle rnd [0..<sz * sz]). idx < sz * sz"
    using set_shuffle [OF assms(4), of "[0..<sz * sz]"] by auto
  have one: "countSolutions solution sz 2 = Inr (solution, 1)"
    using assms(1,3) by (rule countSolutions_complete)
  have "int 0 \<le> max 0 (int (sz * sz) - cluesCount)" by simp
  from digLoop_invariant [OF assms(2) idxs assms(1) one assms(3) this]
  show ?thesis
    by (auto simp: makeUniquePuzzleFromSolution_def len clone2D_id Let_def)
qed

text \<open>
  Claim C1. From a complete \<open>size \<times> size\<close> grid with \<open>size\<close> 6 or 9 (a valid solution is
  one) and any number of clues to keep, the digger returns a grid, whatever the shuffle
  draws; \<^verbatim>\<open>countSolutions\<close> with limit 2 returns exactly 1 on that grid; and when the
  number of clues to keep is at most \<open>size\<^sup>2\<close> the grid has at most
  \<open>size\<^sup>2 - cluesToKeep\<close> empty cells. (Asked to keep more clues than there are
  cells, the digger removes nothing: the number of empty cells is at most the larger of 0
  and \<open>size\<^sup>2 - cluesToKeep\<close>.) The draws satisfy \<open>rnd i \<le> i\<close>, as
  \<^verbatim>\<open>Math.floor(Math.random() * (i + 1))\<close> does.
\<close>

theorem digger_unique_puzzle:
  assumes "squareGrid sz solution" and "sz = 6 \<or> sz = 9" and "zeroCount solution = 0"
    and "\<forall>i. rnd i \<le> i"
  shows "\<exists>puzzle. makeUniquePuzzleFromSolution solution cluesCount rnd = Inr puzzle \<and>
           countSolutions puzzle sz 2 = Inr (puzzle, 1) \<and>
           int (zeroCount puzzle) \<le> max 0 (int (sz * sz) - cluesCount) \<and>
           (cluesCount \<le> int (sz * sz) \<longrightarrow> int (zeroCount puzzle) \<le> int (sz * sz) - cluesCount)"
proof -
  have len: "length solution = sz" using assms(1) by (rule squareGrid_length)
  have idxs: "\<forall>idx \<in> set (shuffle rnd [0..<sz * sz]). idx < sz * sz"
    using set_shuffle [OF assms(4), of "[0..<sz * sz]"] by auto
  have one: "countSolutions solution sz 2 = Inr (solution, 1)"
    using assms(1,3) by (rule countSolutions_complete)
  have "int 0 \<le> max 0 (int (sz * sz) - cluesCount)" by simp
  from digLoop_invariant [OF assms(2) idxs assms(1) one assms(3) this]
  obtain p where "digLoop sz (int (sz * sz) - cluesCount) (shuffle rnd [0..<sz * sz]) solution 0 = Inr p"
    and "countSolutions p sz 2 = Inr (p, 1)"
    and "int (zeroCount p) \<le> max 0 (int (sz * sz) - cluesCount)"
    by blast
  then show ?thesis
    by (auto simp: makeUniquePuzzleFromSolution_def len clone2D_id Let_def)
qed

theorem digger_unique_puzzle_witness:
  "squareGrid 6 SOLUTION_6 \<and> ((6::nat) = 6 \<or> (6::nat) = 9) \<and> zeroCount SOLUTION_6 = 0 \<and>
   (\<forall>i::nat. (\<lambda>i. 0::nat) i \<le> i) \<and> (18::int) \<le> int (6 * 6) \<and>
   (\<exists>puzzle. makeUniquePuzzleFromSolution SOLUTION_6 18 (\<lambda>i. 0) = Inr puzzle \<and>
       countSolutions puzzle 6 2 = Inr (puzzle, 1) \<and>
       int (zeroCount puzzle) \<le> int (6 * 6) - 18)"
proof -
  have sq: "squareGrid 6 SOLUTION_6" by code_simp
  have full: "zeroCount SOLUTION_6 = 0" by code_simp
  have rnd: "\<forall>i::nat. (\<lambda>i. 0::nat) i \<le> i" by simp
  from digger_unique_puzzle [OF sq _ full rnd, of 18] sq full show ?thesis by simp
qed

section \<open>Starting a game\<close>

lemma SOLUTION_6_square: "squareGrid 6 SOLUTION_6" by code_simp
lemma SOLUTION_9_square: "squareGrid 9 SOLUTION_9" by code_simp
lemma SOLUTION_6_complete: "zeroCount SOLUTION_6 = 0" by code_simp
lemma SOLUTION_9_complete: "zeroCount SOLUTION_9 = 0" by code_simp

text \<open>
  Claim C10. Whatever the mode argument and the state before, \<^verbatim>\<open>startNewGame\<close> returns a
  state whose solution board is the constant \<open>SOLUTION_6\<close> when the mode is \<^verbatim>\<open>"easy"\<close>
  and the constant \<open>SOLUTION_9\<close>, with size 9 and 30 clues, for every other mode. The
  solution depends on the mode alone, so two games of the same mode have the same
  solution board; the draws \<open>rnd\<close> reach only the puzzle that is dug from it.
\<close>

theorem startNewGame_fixed_solution:
  assumes "\<forall>i. rnd i \<le> i"
  shows "\<exists>s'. startNewGame newMode rnd s = Inr s' \<and>
           solutionBoard s' = (if newMode = ''easy'' then SOLUTION_6 else SOLUTION_9) \<and>
           gameSize s' = (if newMode = ''easy'' then 6 else 9) \<and>
           makeUniquePuzzleFromSolution (solutionBoard s')
             (if newMode = ''easy'' then 18 else 30) rnd = Inr (initialBoard s')"
proof (cases "newMode = ''easy''")
  case True
  obtain puzzle where "makeUniquePuzzleFromSolution SOLUTION_6 18 rnd = Inr puzzle"
    using makeUniquePuzzle_returns [OF SOLUTION_6_square _ SOLUTION_6_complete assms, of 18]
    by auto
  with True show ?thesis by (simp add: startNewGame_def clone2D_id)
next
  case False
  obtain puzzle where "makeUniquePuzzleFromSolution SOLUTION_9 30 rnd = Inr puzzle"
    using makeUniquePuzzle_returns [OF SOLUTION_9_square _ SOLUTION_9_complete assms, of 30]
    by auto
  with False show ?thesis by (simp add: startNewGame_def clone2D_id)
qed

theorem startNewGame_fixed_solution_witness:
  "(\<forall>i::nat. (\<lambda>i. 0::nat) i \<le> i) \<and>
   (\<exists>s'. startNewGame ''normal'' (\<lambda>i. 0) idleGame = Inr s' \<and>
         solutionBoard s' = SOLUTION_9 \<and> gameSize s' = 9 \<and>
         makeUniquePuzzleFromSolution (solutionBoard s') 30 (\<lambda>i. 0) = Inr (initialBoard s'))"
  using startNewGame_fixed_solution [of "\<lambda>i. 0" "''normal''" idleGame] by simp

section \<open>The violation detector\<close>

subsection \<open>One group\<close>

lemma keys_pushSeen: "fst ` set (pushSeen seen v cell) = insert v (fst ` set seen)"
  by (induction seen v cell rule: pushSeen.induct) auto

lemma bucketsOk_pushSeen: "bucketsOk seen \<Longrightarrow> bucketsOk (pushSeen seen v cell)"
proof (induction seen v cell rule: pushSeen.induct)
  case (1 v cell)
  then show ?case by (simp add: bucketsOk_def)
next
  case (2 k cells rest v cell)
  then show ?case
    using keys_pushSeen [of rest v cell] by (auto simp: bucketsOk_def)
qed

lemma lookupSeen_pushSeen:
  "lookupSeen (pushSeen seen v cell) k =
     (if k = v then lookupSeen seen v @ [cell] else lookupSeen seen k)"
  by (induction seen v cell rule: pushSeen.induct) (auto simp: lookupSeen_def)

lemma collectSeen_square:
  assumes "squareGrid sz g" and "\<forall>(r, c) \<in> set cells. r < sz \<and> c < sz" and "bucketsOk seen"
  shows "\<exists>seen'. collectSeen g cells seen = Inr seen' \<and> bucketsOk seen' \<and>
           (\<forall>k. lookupSeen seen' k =
                  lookupSeen seen k @
                    filter (\<lambda>cell. Some (cellVal g cell) = k \<and> cellVal g cell \<noteq> 0) cells)"
  using assms(2,3)
proof (induction cells arbitrary: seen)
  case Nil
  then show ?case by simp
next
  case (Cons rc cells)
  obtain r c where rc: "rc = (r, c)" by (cases rc)
  with Cons.prems have "r < sz" "c < sz" by auto
  then have rd: "cellAt g r c = Inr (Some (g ! r ! c))"
    using assms(1) by (simp add: cellAt_square)
  have rest: "\<forall>(r, c) \<in> set cells. r < sz \<and> c < sz" using Cons.prems(1) by simp
  show ?case
  proof (cases "g ! r ! c = 0")
    case True
    from Cons.IH [OF rest Cons.prems(2)] rd True rc show ?thesis
      by (simp add: cellVal_def)
  next
    case False
    let ?seen = "pushSeen seen (Some (g ! r ! c)) (r, c)"
    have ok: "bucketsOk ?seen" using Cons.prems(2) by (rule bucketsOk_pushSeen)
    from Cons.IH [OF rest ok] obtain seen' where
      run: "collectSeen g cells ?seen = Inr seen'" and ok': "bucketsOk seen'" and
      look: "\<And>k. lookupSeen seen' k =
                  lookupSeen ?seen k @
                    filter (\<lambda>cell. Some (cellVal g cell) = k \<and> cellVal g cell \<noteq> 0) cells"
      by blast
    have "collectSeen g (rc # cells) seen = Inr seen'"
      using rd False rc run by simp
    moreover have "lookupSeen seen' k =
                  lookupSeen seen k @
                    filter (\<lambda>cell. Some (cellVal g cell) = k \<and> cellVal g cell \<noteq> 0) (rc # cells)" for k
      using look [of k] False rc by (auto simp: lookupSeen_pushSeen cellVal_def)
    ultimately show ?thesis using ok' by blast
  qed
qed

lemma fold_insert_set: "fold insert xs A = set xs \<union> A"
  by (induction xs arbitrary: A) auto

lemma lookupSeen_Cons:
  "lookupSeen ((v, cells) # rest) k = (if k = v then cells else lookupSeen rest k)"
  by (simp add: lookupSeen_def)

lemma lookupSeen_absent: "v \<notin> fst ` set seen \<Longrightarrow> lookupSeen seen v = []"
  by (simp add: lookupSeen_def map_of_eq_None_iff [THEN iffD2])

lemma markSeen_set:
  "bucketsOk seen \<Longrightarrow>
     markSeen seen E = E \<union> {cell. \<exists>k. 1 < length (lookupSeen seen k) \<and> cell \<in> set (lookupSeen seen k)}"
proof (induction seen arbitrary: E)
  case Nil
  then show ?case by (simp add: lookupSeen_def)
next
  case (Cons kv rest)
  obtain v cells where kv: "kv = (v, cells)" by (cases kv)
  have ok: "bucketsOk rest" and fresh: "v \<notin> fst ` set rest"
    using Cons.prems kv by (auto simp: bucketsOk_def)
  have absent: "lookupSeen rest v = []" using fresh by (rule lookupSeen_absent)
  have split: "{cell. \<exists>k. 1 < length (lookupSeen (kv # rest) k) \<and> cell \<in> set (lookupSeen (kv # rest) k)}
        = (if 1 < length cells then set cells else {}) \<union>
          {cell. \<exists>k. 1 < length (lookupSeen rest k) \<and> cell \<in> set (lookupSeen rest k)}"
    (is "?L = ?R")
  proof (rule set_eqI)
    fix cell
    show "cell \<in> ?L \<longleftrightarrow> cell \<in> ?R"
    proof
      assume "cell \<in> ?L"
      then obtain k where k: "1 < length (lookupSeen (kv # rest) k)" "cell \<in> set (lookupSeen (kv # rest) k)"
        by blast
      show "cell \<in> ?R"
      proof (cases "k = v")
        case True
        with k kv show ?thesis by (simp add: lookupSeen_Cons)
      next
        case False
        with k kv have "1 < length (lookupSeen rest k)" "cell \<in> set (lookupSeen rest k)"
          by (simp_all add: lookupSeen_Cons)
        then show ?thesis by blast
      qed
    next
      assume "cell \<in> ?R"
      then consider "1 < length cells" "cell \<in> set cells"
        | k where "1 < length (lookupSeen rest k)" "cell \<in> set (lookupSeen rest k)"
        by (auto split: if_splits)
      then show "cell \<in> ?L"
      proof cases
        case 1
        then have "1 < length (lookupSeen (kv # rest) v)" "cell \<in> set (lookupSeen (kv # rest) v)"
          using kv by (simp_all add: lookupSeen_Cons)
        then show ?thesis by blast
      next
        case 2
        then have "k \<noteq> v" using absent by auto
        with 2 have "1 < length (lookupSeen (kv # rest) k)" "cell \<in> set (lookupSeen (kv # rest) k)"
          using kv by (simp_all add: lookupSeen_Cons)
        then show ?thesis by blast
      qed
    qed
  qed
  have "markSeen (kv # rest) E = markSeen rest (if 1 < length cells then set cells \<union> E else E)"
    using kv by (simp add: fold_insert_set)
  also have "\<dots> = (if 1 < length cells then set cells \<union> E else E) \<union>
          {cell. \<exists>k. 1 < length (lookupSeen rest k) \<and> cell \<in> set (lookupSeen rest k)}"
    using Cons.IH [OF ok] .
  finally show ?case unfolding split by auto
qed

lemma distinct_more_than_one:
  assumes "distinct xs" "x \<in> set xs"
  shows "1 < length xs \<longleftrightarrow> (\<exists>y \<in> set xs. y \<noteq> x)"
proof
  assume "1 < length xs"
  then have "1 < card (set xs)" using assms(1) by (simp add: distinct_card)
  then have "set xs \<noteq> {x}" by auto
  with assms(2) show "\<exists>y \<in> set xs. y \<noteq> x" by blast
next
  assume "\<exists>y \<in> set xs. y \<noteq> x"
  then obtain y where "y \<in> set xs" "y \<noteq> x" by blast
  with assms(2) have "{x, y} \<subseteq> set xs" by simp
  then have "card {x, y} \<le> card (set xs)" by (simp add: card_mono)
  with \<open>y \<noteq> x\<close> have "2 \<le> card (set xs)" by simp
  then show "1 < length xs" using assms(1) by (simp add: distinct_card)
qed

lemma checkGroup_square:
  assumes "squareGrid sz g" and "\<forall>(r, c) \<in> set cells. r < sz \<and> c < sz" and "distinct cells"
  shows "checkGroup g cells E = Inr (E \<union> groupMarks g cells)"
proof -
  have "bucketsOk []" by (simp add: bucketsOk_def)
  from collectSeen_square [OF assms(1,2) this] obtain seen where
    run: "collectSeen g cells [] = Inr seen" and ok: "bucketsOk seen" and
    look: "\<And>k. lookupSeen seen k =
             filter (\<lambda>cell. Some (cellVal g cell) = k \<and> cellVal g cell \<noteq> 0) cells"
    by (auto simp: lookupSeen_def)
  have "{cell. \<exists>k. 1 < length (lookupSeen seen k) \<and> cell \<in> set (lookupSeen seen k)}
          = groupMarks g cells" (is "?L = ?R")
  proof (rule set_eqI)
    fix cell
    let ?same = "\<lambda>k other. Some (cellVal g other) = k \<and> cellVal g other \<noteq> 0"
    show "cell \<in> ?L \<longleftrightarrow> cell \<in> ?R"
    proof
      assume "cell \<in> ?L"
      then obtain k where k: "1 < length (filter (?same k) cells)" "cell \<in> set (filter (?same k) cells)"
        using look by auto
      have "distinct (filter (?same k) cells)" using assms(3) by simp
      from distinct_more_than_one [OF this k(2)] k(1)
      obtain other where "other \<in> set (filter (?same k) cells)" "other \<noteq> cell" by blast
      with k(2) show "cell \<in> ?R" by (auto simp: groupMarks_def)
    next
      assume "cell \<in> ?R"
      then obtain other where c: "cell \<in> set cells" "cellVal g cell \<noteq> 0"
        and o: "other \<in> set cells" "other \<noteq> cell" "cellVal g other = cellVal g cell"
        by (auto simp: groupMarks_def)
      let ?k = "Some (cellVal g cell)"
      have mem: "cell \<in> set (filter (?same ?k) cells)" "other \<in> set (filter (?same ?k) cells)"
        using c o by auto
      have "distinct (filter (?same ?k) cells)" using assms(3) by simp
      from distinct_more_than_one [OF this mem(1)] mem(2) o(2)
      have "1 < length (filter (?same ?k) cells)" by blast
      with mem(1) have "1 < length (lookupSeen seen ?k) \<and> cell \<in> set (lookupSeen seen ?k)"
        unfolding look [of ?k] by simp
      then show "cell \<in> ?L" by blast
    qed
  qed
  then show ?thesis using run markSeen_set [OF ok, of E] by (simp add: checkGroup_def)
qed

lemma checkGroups_square:
  assumes "squareGrid sz g"
    and "\<forall>cells \<in> set groups. distinct cells \<and> (\<forall>(r, c) \<in> set cells. r < sz \<and> c < sz)"
  shows "checkGroups g groups E = Inr (E \<union> (\<Union>cells \<in> set groups. groupMarks g cells))"
  using assms(2)
proof (induction groups arbitrary: E)
  case Nil
  then show ?case by simp
next
  case (Cons cells groups)
  have "checkGroup g cells E = Inr (E \<union> groupMarks g cells)"
    using checkGroup_square [OF assms(1), of cells E] Cons.prems by simp
  moreover have "checkGroups g groups (E \<union> groupMarks g cells)
      = Inr ((E \<union> groupMarks g cells) \<union> (\<Union>cells \<in> set groups. groupMarks g cells))"
    using Cons.IH [of "E \<union> groupMarks g cells"] Cons.prems by simp
  ultimately show ?case by (simp add: Un_assoc)
qed

subsection \<open>The three families of groups\<close>

lemma set_blockStarts_from:
  "0 < step \<Longrightarrow> set (blockStarts sz step b) = {x. b \<le> x \<and> x < sz \<and> step dvd (x - b)}"
proof (induction sz step b rule: blockStarts.induct)
  case (1 sz step b)
  show ?case
  proof (cases "b < sz")
    case False
    with "1.prems" show ?thesis by (auto simp: blockStarts.simps [of sz step b])
  next
    case True
    have IH: "set (blockStarts sz step (b + step)) = {x. b + step \<le> x \<and> x < sz \<and> step dvd (x - (b + step))}"
      using "1.IH" True "1.prems" by simp
    have "{x. b \<le> x \<and> x < sz \<and> step dvd (x - b)}
            = insert b {x. b + step \<le> x \<and> x < sz \<and> step dvd (x - (b + step))}" (is "?L = ?R")
    proof (rule set_eqI)
      fix x
      show "x \<in> ?L \<longleftrightarrow> x \<in> ?R"
      proof
        assume L: "x \<in> ?L"
        show "x \<in> ?R"
        proof (cases "x = b")
          case True
          then show ?thesis by simp
        next
          case False
          with L have pos: "0 < x - b" and dv: "step dvd (x - b)" by auto
          then have "step \<le> x - b" by (simp add: dvd_imp_le)
          moreover from L have "b \<le> x" by simp
          ultimately have ge: "b + step \<le> x" by linarith
          have "step dvd (x - b - step)" using dv dvd_refl by (rule dvd_diff_nat)
          then have "step dvd (x - (b + step))" by (simp only: diff_diff_left)
          with ge L show ?thesis by simp
        qed
      next
        assume R: "x \<in> ?R"
        show "x \<in> ?L"
        proof (cases "x = b")
          case True
          with \<open>b < sz\<close> show ?thesis by simp
        next
          case False
          with R have ge: "b + step \<le> x" "x < sz" and dv: "step dvd (x - (b + step))" by auto
          have "x - b = (x - (b + step)) + step" using ge by simp
          then have "step dvd (x - b)" using dv by (metis dvd_add_triv_right_iff)
          with ge show ?thesis by simp
        qed
      qed
    qed
    with IH True "1.prems" show ?thesis by (simp add: blockStarts.simps [of sz step b])
  qed
qed

lemma set_blockStarts: "0 < step \<Longrightarrow> set (blockStarts sz step 0) = {b. b < sz \<and> step dvd b}"
  by (simp add: set_blockStarts_from)

lemma distinct_blockStarts: "0 < step \<Longrightarrow> distinct (blockStarts sz step b)"
proof (induction sz step b rule: blockStarts.induct)
  case (1 sz step b)
  show ?case
  proof (cases "b < sz")
    case False
    then show ?thesis by (simp add: blockStarts.simps [of sz step b])
  next
    case True
    have "b \<notin> set (blockStarts sz step (b + step))"
      using "1.prems" by (simp add: set_blockStarts_from)
    with "1.IH" True "1.prems" show ?thesis by (simp add: blockStarts.simps [of sz step b])
  qed
qed

lemma in_block_iff:
  fixes step :: nat
  assumes "0 < step" "step dvd b"
  shows "b \<le> r \<and> r < b + step \<longleftrightarrow> b = r - r mod step"
proof
  assume inb: "b \<le> r \<and> r < b + step"
  from assms(2) obtain k where k: "b = step * k" by (auto simp: dvd_def)
  have "r div step = k"
    using inb k by (intro div_nat_eqI) (simp_all add: algebra_simps)
  then show "b = r - r mod step" using k by (simp add: minus_mod_eq_mult_div)
next
  assume "b = r - r mod step"
  moreover have "r mod step < step" using assms(1) by simp
  ultimately show "b \<le> r \<and> r < b + step" by (simp add: less_diff_conv2 [symmetric])
qed

lemma block_within:
  fixes step :: nat
  assumes "0 < step" "step dvd b" "step dvd sz" "b < sz"
  shows "b + step \<le> sz"
proof -
  from assms(2,3) obtain k m where "b = step * k" "sz = step * m" by (auto simp: dvd_def)
  with assms(1,4) have "Suc k \<le> m" by simp
  then have "step * Suc k \<le> step * m" by (rule mult_le_mono2)
  then show ?thesis using \<open>b = step * k\<close> \<open>sz = step * m\<close> by simp
qed


lemma set_rowCells: "set (rowCells r sz) = {r} \<times> {0..<sz}"
  by (auto simp: rowCells_def)

lemma set_colCells: "set (colCells c sz) = {0..<sz} \<times> {c}"
  by (auto simp: colCells_def)

lemma set_blockCells: "set (blockCells br bc R C) = {br..<br + R} \<times> {bc..<bc + C}"
  by (auto simp: blockCells_def)

lemma rowMarks:
  "(r, c) \<in> (\<Union>cells \<in> set (map (\<lambda>r. rowCells r sz) [0..<sz]). groupMarks g cells) \<longleftrightarrow>
     r < sz \<and> c < sz \<and> cellVal g (r, c) \<noteq> 0 \<and>
     (\<exists>c'. c' < sz \<and> c' \<noteq> c \<and> cellVal g (r, c') = cellVal g (r, c))"
  (is "?L \<longleftrightarrow> ?R")
proof
  assume ?L
  then obtain r0 where "r0 < sz" "(r, c) \<in> groupMarks g (rowCells r0 sz)" by auto
  then show ?R by (auto simp: groupMarks_def set_rowCells)
next
  assume R: ?R
  then obtain c' where "c' < sz" "c' \<noteq> c" "cellVal g (r, c') = cellVal g (r, c)" by blast
  then have "(r, c') \<in> set (rowCells r sz)" "(r, c') \<noteq> (r, c)" by (auto simp: set_rowCells)
  with R \<open>cellVal g (r, c') = cellVal g (r, c)\<close> have "(r, c) \<in> groupMarks g (rowCells r sz)"
    unfolding groupMarks_def by (auto simp: set_rowCells)
  with R show ?L by auto
qed

lemma colMarks:
  "(r, c) \<in> (\<Union>cells \<in> set (map (\<lambda>c. colCells c sz) [0..<sz]). groupMarks g cells) \<longleftrightarrow>
     r < sz \<and> c < sz \<and> cellVal g (r, c) \<noteq> 0 \<and>
     (\<exists>r'. r' < sz \<and> r' \<noteq> r \<and> cellVal g (r', c) = cellVal g (r, c))"
  (is "?L \<longleftrightarrow> ?R")
proof
  assume ?L
  then obtain c0 where "c0 < sz" "(r, c) \<in> groupMarks g (colCells c0 sz)" by auto
  then show ?R by (auto simp: groupMarks_def set_colCells)
next
  assume R: ?R
  then obtain r' where "r' < sz" "r' \<noteq> r" "cellVal g (r', c) = cellVal g (r, c)" by blast
  then have "(r', c) \<in> set (colCells c sz)" "(r', c) \<noteq> (r, c)" by (auto simp: set_colCells)
  with R \<open>cellVal g (r', c) = cellVal g (r, c)\<close> have "(r, c) \<in> groupMarks g (colCells c sz)"
    unfolding groupMarks_def by (auto simp: set_colCells)
  with R show ?L by auto
qed

lemma boxMarks:
  fixes R C :: nat
  assumes "0 < R" "0 < C" "R dvd sz" "C dvd sz"
  shows "(r, c) \<in> (\<Union>cells \<in> set (map (\<lambda>(br, bc). blockCells br bc R C)
                       (List.product (blockStarts sz R 0) (blockStarts sz C 0))).
                   groupMarks g cells) \<longleftrightarrow>
     r < sz \<and> c < sz \<and> cellVal g (r, c) \<noteq> 0 \<and>
     (\<exists>r' c'. r' < sz \<and> c' < sz \<and> (r', c') \<noteq> (r, c) \<and> cellVal g (r', c') = cellVal g (r, c) \<and>
        r' - r' mod R = r - r mod R \<and> c' - c' mod C = c - c mod C)"
  (is "?L \<longleftrightarrow> ?R")
proof
  assume ?L
  then obtain br bc where br: "br < sz" "R dvd br" and bc: "bc < sz" "C dvd bc"
    and m: "(r, c) \<in> groupMarks g (blockCells br bc R C)"
    using assms(1,2) by (auto simp: set_blockStarts)
  from m obtain r' c' where cell: "br \<le> r \<and> r < br + R" "bc \<le> c \<and> c < bc + C"
    and other: "br \<le> r' \<and> r' < br + R" "bc \<le> c' \<and> c' < bc + C"
    and rest: "(r', c') \<noteq> (r, c)" "cellVal g (r', c') = cellVal g (r, c)" "cellVal g (r, c) \<noteq> 0"
    by (auto simp: groupMarks_def set_blockCells)
  have lim: "br + R \<le> sz" "bc + C \<le> sz"
    using block_within [OF assms(1) br(2) assms(3) br(1)]
          block_within [OF assms(2) bc(2) assms(4) bc(1)] by simp_all
  have "br = r - r mod R" "br = r' - r' mod R"
    using in_block_iff [OF assms(1) br(2)] cell(1) other(1) by blast+
  moreover have "bc = c - c mod C" "bc = c' - c' mod C"
    using in_block_iff [OF assms(2) bc(2)] cell(2) other(2) by blast+
  moreover have "r < sz" "c < sz" "r' < sz" "c' < sz" using lim cell other by simp_all
  ultimately show ?R using rest by auto
next
  assume rhs: ?R
  then obtain r' c' where o: "r' < sz" "c' < sz" "(r', c') \<noteq> (r, c)"
      "cellVal g (r', c') = cellVal g (r, c)"
      "r' - r' mod R = r - r mod R" "c' - c' mod C = c - c mod C"
    by blast
  let ?br = "r - r mod R" and ?bc = "c - c mod C"
  have dv: "R dvd ?br" "C dvd ?bc" by (simp_all add: dvd_minus_mod)
  have lt: "?br < sz" "?bc < sz" using rhs by (simp_all add: less_imp_diff_less)
  have inb: "?br \<le> r \<and> r < ?br + R" "?bc \<le> c \<and> c < ?bc + C"
    using in_block_iff [OF assms(1) dv(1), of r] in_block_iff [OF assms(2) dv(2), of c] by simp_all
  have ino: "?br \<le> r' \<and> r' < ?br + R" "?bc \<le> c' \<and> c' < ?bc + C"
    using in_block_iff [OF assms(1) dv(1), of r'] in_block_iff [OF assms(2) dv(2), of c'] o(5,6)
    by simp_all
  have m1: "(r, c) \<in> set (blockCells ?br ?bc R C)" using inb by (simp add: set_blockCells)
  have m2: "(r', c') \<in> set (blockCells ?br ?bc R C)" using ino by (simp add: set_blockCells)
  have nz: "cellVal g (r, c) \<noteq> 0" using rhs by simp
  have "(r, c) \<in> groupMarks g (blockCells ?br ?bc R C)"
    unfolding groupMarks_def using m1 m2 nz o(3,4) by blast
  moreover have "(?br, ?bc) \<in> set (List.product (blockStarts sz R 0) (blockStarts sz C 0))"
    using dv lt assms(1,2) by (simp add: set_blockStarts)
  ultimately show ?L by force
qed


lemma blockDimensions_ok:
  assumes "sz = 6 \<or> sz = 9" "getBlockDimensions sz = (R, C)"
  shows "0 < R" "0 < C" "R dvd sz" "C dvd sz"
  using assms by (auto simp: getBlockDimensions_def split: if_splits)

lemma distinct_rowCells: "distinct (rowCells r sz)"
  by (simp add: rowCells_def distinct_map inj_on_def)

lemma distinct_colCells: "distinct (colCells c sz)"
  by (simp add: colCells_def distinct_map inj_on_def)

lemma distinct_blockCells: "distinct (blockCells br bc R C)"
  by (simp add: blockCells_def distinct_product)

lemma violations_iff:
  assumes "getBlockDimensions sz = (R, C)"
  shows "(r, c) \<in> violations g sz \<longleftrightarrow>
     r < sz \<and> c < sz \<and> cellVal g (r, c) \<noteq> 0 \<and>
     ((\<exists>c'. c' < sz \<and> c' \<noteq> c \<and> cellVal g (r, c') = cellVal g (r, c)) \<or>
      (\<exists>r'. r' < sz \<and> r' \<noteq> r \<and> cellVal g (r', c) = cellVal g (r, c)) \<or>
      (\<exists>r' c'. r' < sz \<and> c' < sz \<and> (r', c') \<noteq> (r, c) \<and> cellVal g (r', c') = cellVal g (r, c) \<and>
         r' - r' mod R = r - r mod R \<and> c' - c' mod C = c - c mod C))"
  (is "?L \<longleftrightarrow> ?R")
proof
  assume ?L
  then obtain r' c' where base: "r < sz" "c < sz" "cellVal g (r, c) \<noteq> 0"
    and o: "r' < sz" "c' < sz" "(r', c') \<noteq> (r, c)" "cellVal g (r', c') = cellVal g (r, c)"
    and rel: "r' = r \<or> c' = c \<or> boxOrigin sz (r', c') = boxOrigin sz (r, c)"
    by (auto simp: violations_def)
  from rel consider "r' = r" | "c' = c" | "boxOrigin sz (r', c') = boxOrigin sz (r, c)" by blast
  then show ?R
  proof cases
    case 1
    with o have "c' < sz \<and> c' \<noteq> c \<and> cellVal g (r, c') = cellVal g (r, c)" by simp
    with base show ?thesis by blast
  next
    case 2
    with o have "r' < sz \<and> r' \<noteq> r \<and> cellVal g (r', c) = cellVal g (r, c)" by simp
    with base show ?thesis by blast
  next
    case 3
    then have "r' - r' mod R = r - r mod R \<and> c' - c' mod C = c - c mod C"
      using assms by (simp add: boxOrigin_def)
    with o base show ?thesis by blast
  qed
next
  assume rhs: ?R
  then have base: "r < sz" "c < sz" "cellVal g (r, c) \<noteq> 0" by simp_all
  from rhs consider c' where "c' < sz" "c' \<noteq> c" "cellVal g (r, c') = cellVal g (r, c)"
    | r' where "r' < sz" "r' \<noteq> r" "cellVal g (r', c) = cellVal g (r, c)"
    | r' c' where "r' < sz" "c' < sz" "(r', c') \<noteq> (r, c)" "cellVal g (r', c') = cellVal g (r, c)"
         "r' - r' mod R = r - r mod R" "c' - c' mod C = c - c mod C"
    by blast
  then obtain other where oth: "other \<in> {0..<sz} \<times> {0..<sz}" "other \<noteq> (r, c)"
    "cellVal g other = cellVal g (r, c)"
    "fst other = r \<or> snd other = c \<or> boxOrigin sz other = boxOrigin sz (r, c)"
  proof cases
    case 1
    with base that [of "(r, c')"] show ?thesis by simp
  next
    case 2
    with base that [of "(r', c)"] show ?thesis by simp
  next
    case 3
    with base that [of "(r', c')"] assms show ?thesis by (simp add: boxOrigin_def)
  qed
  have "\<exists>other \<in> {0..<sz} \<times> {0..<sz}. other \<noteq> (r, c) \<and>
          cellVal g other = cellVal g (r, c) \<and>
          (fst other = fst (r, c) \<or> snd other = snd (r, c) \<or>
           boxOrigin sz other = boxOrigin sz (r, c))"
    using oth by (intro bexI [of _ other]) simp_all
  with base show ?L unfolding violations_def by simp
qed

lemma computeErrors_square:
  assumes "squareGrid sz g" "sz = 6 \<or> sz = 9"
  shows "computeErrors g sz = Inr (violations g sz)"
proof -
  obtain R C where bd: "getBlockDimensions sz = (R, C)" by (cases "getBlockDimensions sz")
  note dims = blockDimensions_ok [OF assms(2) bd]
  let ?rows = "map (\<lambda>r. rowCells r sz) [0..<sz]"
  let ?cols = "map (\<lambda>c. colCells c sz) [0..<sz]"
  let ?boxes = "map (\<lambda>(br, bc). blockCells br bc R C)
                  (List.product (blockStarts sz R 0) (blockStarts sz C 0))"
  have rowsOk: "\<forall>cells \<in> set ?rows. distinct cells \<and> (\<forall>(r, c) \<in> set cells. r < sz \<and> c < sz)"
    by (auto simp: distinct_rowCells set_rowCells)
  have colsOk: "\<forall>cells \<in> set ?cols. distinct cells \<and> (\<forall>(r, c) \<in> set cells. r < sz \<and> c < sz)"
    by (auto simp: distinct_colCells set_colCells)
  have boxesOk: "\<forall>cells \<in> set ?boxes. distinct cells \<and> (\<forall>(r, c) \<in> set cells. r < sz \<and> c < sz)"
  proof
    fix cells assume "cells \<in> set ?boxes"
    then obtain br bc where cells: "cells = blockCells br bc R C"
      and br: "br < sz" "R dvd br" and bc: "bc < sz" "C dvd bc"
      using dims(1,2) by (auto simp: set_blockStarts)
    have "br + R \<le> sz" "bc + C \<le> sz"
      using block_within [OF dims(1) br(2) dims(3) br(1)]
            block_within [OF dims(2) bc(2) dims(4) bc(1)] by simp_all
    then show "distinct cells \<and> (\<forall>(r, c) \<in> set cells. r < sz \<and> c < sz)"
      by (auto simp: cells distinct_blockCells set_blockCells)
  qed
  let ?E1 = "\<Union>cells \<in> set ?rows. groupMarks g cells"
  let ?E2 = "\<Union>cells \<in> set ?cols. groupMarks g cells"
  let ?E3 = "\<Union>cells \<in> set ?boxes. groupMarks g cells"
  have run: "computeErrors g sz = Inr (?E1 \<union> ?E2 \<union> ?E3)"
    using checkGroups_square [OF assms(1) rowsOk, of "{}"]
          checkGroups_square [OF assms(1) colsOk, of ?E1]
          checkGroups_square [OF assms(1) boxesOk, of "?E1 \<union> ?E2"]
    by (simp add: computeErrors_def bd)
  have "?E1 \<union> ?E2 \<union> ?E3 = violations g sz"
  proof (rule set_eqI)
    fix cell :: "nat \<times> nat"
    obtain r c where cell: "cell = (r, c)" by (cases cell)
    show "cell \<in> ?E1 \<union> ?E2 \<union> ?E3 \<longleftrightarrow> cell \<in> violations g sz"
      unfolding cell Un_iff rowMarks colMarks boxMarks [OF dims] violations_iff [OF bd]
      by blast
  qed
  with run show ?thesis by simp
qed


lemma cellVal_putCell_same:
  "squareGrid sz g \<Longrightarrow> r < sz \<Longrightarrow> c < sz \<Longrightarrow> cellVal (putCell g r c v) (r, c) = v"
  by (simp add: cellVal_def putCell_def squareGrid_nth squareGrid_length)

lemma cellVal_putCell_other:
  "cell \<noteq> (r, c) \<Longrightarrow> cellVal (putCell g r c v) cell = cellVal g cell"
proof -
  assume ne: "cell \<noteq> (r, c)"
  obtain r' c' where cell: "cell = (r', c')" by (cases cell)
  show ?thesis
  proof (cases "r' = r")
    case False
    then show ?thesis by (simp add: cell cellVal_def putCell_def)
  next
    case True
    with ne cell have "c' \<noteq> c" by simp
    with True show ?thesis
      by (cases "r < length g") (simp_all add: cell cellVal_def putCell_def list_update_beyond)
  qed
qed

text \<open>
  Claim C5. On a \<open>size \<times> size\<close> grid with \<open>size\<close> 6 or 9, \<^verbatim>\<open>computeErrors\<close> returns exactly
  the set of cells that hold a nonzero value and share it with another cell of the same
  row, column or box. Empty cells are never in the set, and the result is a set, so a
  cell that several groups mark is in it once. Writing 1 at \<open>(0, 0)\<close> of a 6 \<times> 6 board
  that has 1 at \<open>(0, 3)\<close> marks both cells.
\<close>

theorem computeErrors_exact:
  assumes "squareGrid sz g" "sz = 6 \<or> sz = 9"
  shows "computeErrors g sz = Inr (violations g sz) \<and>
         (\<forall>cell \<in> violations g sz. cellVal g cell \<noteq> 0) \<and>
         (sz = 6 \<and> g ! 0 ! 3 = 1 \<longrightarrow>
            (\<exists>E. computeErrors (putCell g 0 0 1) sz = Inr E \<and> (0, 0) \<in> E \<and> (0, 3) \<in> E))"
proof (intro conjI impI)
  show "computeErrors g sz = Inr (violations g sz)"
    using assms by (rule computeErrors_square)
  show "\<forall>cell \<in> violations g sz. cellVal g cell \<noteq> 0"
    by (simp add: violations_def)
next
  assume sc: "sz = 6 \<and> g ! 0 ! 3 = 1"
  let ?h = "putCell g 0 0 1"
  have sq: "squareGrid sz ?h" using assms(1) by (rule squareGrid_putCell)
  have bd: "getBlockDimensions sz = (2, 3)" using sc by (simp add: getBlockDimensions_def)
  have v00: "cellVal ?h (0, 0) = 1"
    using cellVal_putCell_same [OF assms(1), of 0 0 1] sc by simp
  have v03: "cellVal ?h (0, 3) = 1"
    using cellVal_putCell_other [of "(0, 3)" 0 0 g 1] sc by (simp add: cellVal_def)
  have "(0, 0) \<in> violations ?h sz"
    unfolding violations_iff [OF bd] using sc v00 v03 by (auto intro: exI [of _ 3])
  moreover have "(0, 3) \<in> violations ?h sz"
    unfolding violations_iff [OF bd] using sc v00 v03 by (auto intro: exI [of _ 0])
  ultimately show "\<exists>E. computeErrors ?h sz = Inr E \<and> (0, 0) \<in> E \<and> (0, 3) \<in> E"
    using computeErrors_square [OF sq assms(2)] by simp
qed

theorem computeErrors_exact_witness:
  "squareGrid 6 duplicateBoard \<and> ((6::nat) = 6 \<or> (6::nat) = 9) \<and> duplicateBoard ! 0 ! 3 = 1 \<and>
   computeErrors duplicateBoard 6 = Inr (violations duplicateBoard 6) \<and>
   (\<exists>E. computeErrors (putCell duplicateBoard 0 0 1) 6 = Inr E \<and> (0, 0) \<in> E \<and> (0, 3) \<in> E)"
proof -
  have sq: "squareGrid 6 duplicateBoard" by code_simp
  have at: "duplicateBoard ! 0 ! 3 = 1" by code_simp
  from computeErrors_exact [OF sq, simplified] sq at show ?thesis by simp
qed

section \<open>Editing a cell\<close>

lemma hasEmpty_zeroCount: "(\<exists>r \<in> set g. 0 \<in> set r) \<longleftrightarrow> zeroCount g \<noteq> 0"
  by (simp add: zeroCount_zero_iff)

lemma updateCell_ok:
  assumes "gameOk s" "row < gameSize s"
  shows "updateCell row col v s =
           Inr (if status s = Playing \<and> col < gameSize s \<and> initialBoard s ! row ! col = 0
                then (case parseValue v (gameSize s) of
                        None \<Rightarrow> s
                      | Some num \<Rightarrow> editedGame s row col num)
                else s)"
proof -
  let ?sz = "gameSize s"
  have szs: "?sz = 6 \<or> ?sz = 9" and sqi: "squareGrid ?sz (initialBoard s)"
    and sqb: "squareGrid ?sz (board s)"
    using assms(1) by (simp_all add: gameOk_def)
  have len: "length (board s) \<noteq> 0" using sqb szs by (auto simp: squareGrid_def)
  show ?thesis
  proof (cases "status s = Playing \<and> col < ?sz \<and> initialBoard s ! row ! col = 0")
    case False
    then consider "status s \<noteq> Playing" | "status s = Playing" "\<not> col < ?sz"
      | "status s = Playing" "col < ?sz" "initialBoard s ! row ! col \<noteq> 0" by metis
    then show ?thesis
    proof cases
      case 1
      then show ?thesis by (simp add: updateCell_def)
    next
      case 2
      then have "cellAt (initialBoard s) row col = Inr None"
        using sqi assms(2) by (simp add: cellAt_def squareGrid_nth squareGrid_length)
      with 2 len show ?thesis by (simp add: updateCell_def)
    next
      case 3
      then have "cellAt (initialBoard s) row col = Inr (Some (initialBoard s ! row ! col))"
        using sqi assms(2) by (simp add: cellAt_square)
      with 3 len show ?thesis by (simp add: updateCell_def)
    qed
  next
    case True
    then have rd: "cellAt (initialBoard s) row col = Inr (Some 0)"
      using cellAt_square [OF sqi assms(2), of col] by simp
    show ?thesis
    proof (cases "parseValue v ?sz")
      case None
      with True rd len show ?thesis by (simp add: updateCell_def)
    next
      case (Some num)
      let ?next = "putCell (board s) row col num"
      have wr: "setCell (clone2D (board s)) row col num = Inr ?next"
        using setCell_square [OF sqb assms(2), of col num] True by (simp add: clone2D_id)
      have sqn: "squareGrid ?sz ?next" using sqb by (rule squareGrid_putCell)
      have ce: "computeErrors ?next ?sz = Inr (violations ?next ?sz)"
        using sqn szs by (rule computeErrors_square)
      show ?thesis
        using True rd len Some wr ce
        by (simp add: updateCell_def editedGame_def Let_def hasEmpty_zeroCount)
    qed
  qed
qed

lemma set_allCells_mem: "cell \<in> set (allCells sz) \<longleftrightarrow> fst cell < sz \<and> snd cell < sz"
  by (cases cell) (simp add: set_allCells)

lemma cluesKept_iff:
  "cluesKept s s' \<longleftrightarrow>
     (\<forall>cell. isClue s cell \<longrightarrow> cellVal (board s') cell = cellVal (initialBoard s) cell)"
  unfolding cluesKept_def list_all_iff using set_allCells_mem [of _ "gameSize s"]
  by (auto simp: isClue_def)

lemma gameOk_editedGame: "gameOk s \<Longrightarrow> gameOk (editedGame s row col num)"
  by (simp add: gameOk_def editedGame_def Let_def squareGrid_putCell)

lemma updateCell_on_clue:
  assumes "gameOk s" "isClue s cell"
  shows "updateCell (fst cell) (snd cell) v s = Inr s"
  using updateCell_ok [OF assms(1), of "fst cell" "snd cell" v] assms(2)
  by (simp add: isClue_def cellVal_def)

lemma updateCell_keeps_clues:
  assumes "gameOk t" "row < gameSize t" "initialBoard t = initialBoard s" "gameSize t = gameSize s"
    and "cluesKept s t"
  shows "\<exists>t'. updateCell row col v t = Inr t' \<and> gameOk t' \<and> initialBoard t' = initialBoard s \<and>
              gameSize t' = gameSize s \<and> cluesKept s t'"
proof (cases "status t = Playing \<and> col < gameSize t \<and> initialBoard t ! row ! col = 0")
  case False
  have "updateCell row col v t = Inr t"
    using updateCell_ok [OF assms(1,2), of col v] False by (simp only: if_False)
  with assms show ?thesis by simp
next
  case True
  show ?thesis
  proof (cases "parseValue v (gameSize t)")
    case None
    have "updateCell row col v t = Inr t"
      using updateCell_ok [OF assms(1,2), of col v] True None by simp
    with assms show ?thesis by simp
  next
    case (Some num)
    let ?t' = "editedGame t row col num"
    have run: "updateCell row col v t = Inr ?t'"
      using updateCell_ok [OF assms(1,2), of col v] True Some by simp
    have "cellVal (board ?t') cell = cellVal (initialBoard s) cell" if "isClue s cell" for cell
    proof -
      have "cell \<noteq> (row, col)"
        using that True assms(3) by (auto simp: isClue_def cellVal_def)
      then have "cellVal (board ?t') cell = cellVal (board t) cell"
        by (simp add: editedGame_def Let_def cellVal_putCell_other)
      moreover have "cellVal (board t) cell = cellVal (initialBoard s) cell"
        using assms(5) that unfolding cluesKept_iff by blast
      ultimately show ?thesis by simp
    qed
    then have "cluesKept s ?t'" by (simp add: cluesKept_iff)
    moreover have "initialBoard ?t' = initialBoard s" "gameSize ?t' = gameSize s"
      using assms(3,4) by (simp_all add: editedGame_def Let_def)
    ultimately show ?thesis using run gameOk_editedGame [OF assms(1)] by simp
  qed
qed

lemma runUpdates_keeps_clues:
  assumes "\<forall>(row, col, v) \<in> set edits. row < gameSize s"
    and "gameOk t" "initialBoard t = initialBoard s" "gameSize t = gameSize s" "cluesKept s t"
  shows "\<exists>t'. runUpdates edits t = Inr t' \<and> initialBoard t' = initialBoard s \<and> cluesKept s t'"
  using assms
proof (induction edits arbitrary: t)
  case Nil
  then show ?case by simp
next
  case (Cons e edits)
  obtain row col v where e: "e = (row, col, v)" by (cases e)
  have "row < gameSize t" using Cons.prems(1,4) e by simp
  from updateCell_keeps_clues [OF Cons.prems(2) this Cons.prems(3,4,5), of col v]
  obtain t1 where t1: "updateCell row col v t = Inr t1" "gameOk t1"
      "initialBoard t1 = initialBoard s" "gameSize t1 = gameSize s" "cluesKept s t1"
    by blast
  have "\<forall>(row, col, v) \<in> set edits. row < gameSize s" using Cons.prems(1) by auto
  from Cons.IH [OF this t1(2,3,4,5)] t1(1) e show ?case by simp
qed

lemma startNewGame_gameOk:
  assumes "\<forall>i. rnd i \<le> i" and "startNewGame newMode rnd s0 = Inr s"
  shows "gameOk s \<and> board s = initialBoard s \<and> status s = Playing \<and> cluesKept s s"
proof -
  let ?sz = "if newMode = ''easy'' then 6 else 9 :: nat"
  let ?sol = "if newMode = ''easy'' then SOLUTION_6 else SOLUTION_9"
  let ?clues = "if newMode = ''easy'' then 18 else 30 :: int"
  have "squareGrid ?sz ?sol" "zeroCount ?sol = 0" "?sz = 6 \<or> ?sz = 9"
    by (simp_all add: SOLUTION_6_square SOLUTION_9_square SOLUTION_6_complete SOLUTION_9_complete)
  from makeUniquePuzzle_returns [OF this(1,3,2) assms(1), of ?clues]
  obtain puzzle where p: "makeUniquePuzzleFromSolution ?sol ?clues rnd = Inr puzzle"
    "squareGrid ?sz puzzle" by blast
  have s: "initialBoard s = puzzle" "board s = puzzle" "gameSize s = ?sz" "status s = Playing"
    using assms(2) p(1) by (auto simp: startNewGame_def clone2D_id split: if_splits)
  with p(2) have "gameOk s" by (auto simp: gameOk_def split: if_splits)
  moreover have "cluesKept s s" using s by (simp add: cluesKept_iff)
  ultimately show ?thesis using s by simp
qed

text \<open>
  Claim C7. In a game in progress whose working board agrees with the initial board on
  the clues (as it does right after \<^verbatim>\<open>startNewGame\<close>, see \<open>startNewGame_gameOk\<close>), every
  sequence of \<^verbatim>\<open>updateCell\<close> calls on rows of the grid runs to its end, leaves the
  initial board as it is, and leaves every clue cell of the working board with the
  initial board's value. A call that targets a clue cell returns the state unchanged.
\<close>

theorem clue_cells_immutable:
  assumes "gameOk s" and "cluesKept s s" and "\<forall>(row, col, v) \<in> set edits. row < gameSize s"
  shows "(\<exists>s'. runUpdates edits s = Inr s' \<and> initialBoard s' = initialBoard s \<and>
               (\<forall>cell. isClue s cell \<longrightarrow> cellVal (board s') cell = cellVal (initialBoard s) cell)) \<and>
         (\<forall>cell v. isClue s cell \<longrightarrow> updateCell (fst cell) (snd cell) v s = Inr s)"
proof
  from runUpdates_keeps_clues [OF assms(3,1) refl refl assms(2)]
  show "\<exists>s'. runUpdates edits s = Inr s' \<and> initialBoard s' = initialBoard s \<and>
               (\<forall>cell. isClue s cell \<longrightarrow> cellVal (board s') cell = cellVal (initialBoard s) cell)"
    by (simp add: cluesKept_iff)
  show "\<forall>cell v. isClue s cell \<longrightarrow> updateCell (fst cell) (snd cell) v s = Inr s"
    using updateCell_on_clue [OF assms(1)] by blast
qed

theorem clue_cells_immutable_witness:
  "gameOk demoGame \<and> cluesKept demoGame demoGame \<and> isClue demoGame (0, 1) \<and>
   (\<exists>s'. runUpdates [(0, 0, IntegerValue 1), (0, 1, IntegerValue 5), (5, 5, EmptyString)] demoGame = Inr s' \<and>
         initialBoard s' = initialBoard demoGame \<and>
         cellVal (board s') (0, 1) = cellVal (initialBoard demoGame) (0, 1)) \<and>
   updateCell 0 1 (IntegerValue 5) demoGame = Inr demoGame"
proof -
  have ok: "gameOk demoGame" by code_simp
  have kept: "cluesKept demoGame demoGame" by code_simp
  have clue: "isClue demoGame (0, 1)" by code_simp
  have rng: "\<forall>(row, col, v) \<in> set [(0, 0, IntegerValue 1), (0, 1, IntegerValue 5), (5, 5, EmptyString)].
               row < gameSize demoGame"
    by (simp add: demoGame_def)
  from clue_cells_immutable [OF ok kept rng] ok kept clue show ?thesis by fastforce
qed

text \<open>
  Claim C8. When \<^verbatim>\<open>updateCell\<close> applies an edit (the game is being played, the cell is
  not a clue and the raw value is the empty string or an integer in \<open>[1, size]\<close>), the new
  working board is the old one with the cell written, the new violation set is
  \<^verbatim>\<open>computeErrors\<close> of it, the hint is cleared, and the status is \<open>Completed\<close> exactly
  when the new board has no empty cell and the violation set is empty; otherwise it is
  \<open>Playing\<close>.
\<close>

theorem updateCell_completion:
  assumes "gameOk s" and "status s = Playing" and "row < gameSize s" and "col < gameSize s"
    and "initialBoard s ! row ! col = 0" and "parseValue v (gameSize s) = Some num"
  shows "\<exists>s'. updateCell row col v s = Inr s' \<and>
           board s' = putCell (board s) row col num \<and>
           computeErrors (board s') (gameSize s) = Inr (errors s') \<and>
           hintCell s' = None \<and>
           (status s' = Completed \<longleftrightarrow> zeroCount (board s') = 0 \<and> errors s' = {}) \<and>
           (status s' = Playing \<longleftrightarrow> \<not> (zeroCount (board s') = 0 \<and> errors s' = {}))"
proof -
  let ?s' = "editedGame s row col num"
  have run: "updateCell row col v s = Inr ?s'"
    using updateCell_ok [OF assms(1,3), of col v] assms(2,4,5,6) by simp
  have sq: "squareGrid (gameSize s) (board ?s')"
    using gameOk_editedGame [OF assms(1), of row col num]
    by (simp add: gameOk_def editedGame_def Let_def)
  have "computeErrors (board ?s') (gameSize s) = Inr (errors ?s')"
    using computeErrors_square [OF sq] assms(1) by (simp add: gameOk_def editedGame_def Let_def)
  with run show ?thesis by (simp add: editedGame_def Let_def)
qed

theorem updateCell_completion_witness:
  "gameOk lastCellGame \<and> status lastCellGame = Playing \<and> (0::nat) < gameSize lastCellGame \<and>
   initialBoard lastCellGame ! 0 ! 0 = 0 \<and>
   parseValue (IntegerValue 1) (gameSize lastCellGame) = Some 1 \<and>
   (\<exists>s'. updateCell 0 0 (IntegerValue 1) lastCellGame = Inr s' \<and> board s' = SOLUTION_6 \<and>
         errors s' = {} \<and> status s' = Completed)"
proof -
  have ok: "gameOk lastCellGame" by code_simp
  have st: "status lastCellGame = Playing" by (simp add: lastCellGame_def)
  have sz: "(0::nat) < gameSize lastCellGame" by (simp add: lastCellGame_def)
  have em: "initialBoard lastCellGame ! 0 ! 0 = 0" by code_simp
  have pv: "parseValue (IntegerValue 1) (gameSize lastCellGame) = Some 1" by code_simp
  have full: "putCell (board lastCellGame) 0 0 1 = SOLUTION_6" by code_simp
  have noerr: "computeErrors SOLUTION_6 (gameSize lastCellGame) = Inr {}" by code_simp
  have nz: "zeroCount SOLUTION_6 = 0" by code_simp
  from updateCell_completion [OF ok st sz sz em pv] obtain s' where
    s': "updateCell 0 0 (IntegerValue 1) lastCellGame = Inr s'"
        "board s' = putCell (board lastCellGame) 0 0 1"
        "computeErrors (board s') (gameSize lastCellGame) = Inr (errors s')"
        "status s' = Completed \<longleftrightarrow> zeroCount (board s') = 0 \<and> errors s' = {}"
    by blast
  from s'(2,3) full noerr have "board s' = SOLUTION_6" "errors s' = {}" by simp_all
  with s'(1,4) nz ok st sz em pv show ?thesis by simp
qed

text \<open>
  Claim C9. \<^verbatim>\<open>updateCell\<close> returns the state unchanged, without an exception, whenever
  the status is not \<open>Playing\<close>, and, for a row the initial board has, whenever the raw
  value is a number that is not an integer or an integer outside \<open>[1, size]\<close>.
\<close>

theorem updateCell_rejects_invalid:
  "(status s \<noteq> Playing \<longrightarrow> updateCell row col v s = Inr s) \<and>
   (row < length (initialBoard s) \<and>
    (v = NotInteger \<or> (\<exists>n. v = IntegerValue n \<and> (n < 1 \<or> int (gameSize s) < n))) \<longrightarrow>
      updateCell row col v s = Inr s)"
proof (intro conjI impI)
  assume "status s \<noteq> Playing"
  then show "updateCell row col v s = Inr s" by (simp add: updateCell_def)
next
  assume inv: "row < length (initialBoard s) \<and>
    (v = NotInteger \<or> (\<exists>n. v = IntegerValue n \<and> (n < 1 \<or> int (gameSize s) < n)))"
  then have rejected: "parseValue v (gameSize s) = None"
    by (auto simp: parseValue_def)
  from inv obtain clue where "cellAt (initialBoard s) row col = Inr clue"
    by (simp add: cellAt_def)
  with rejected show "updateCell row col v s = Inr s"
    by (simp add: updateCell_def)
qed

theorem updateCell_rejects_invalid_witness:
  "status idleGame \<noteq> Playing \<and> updateCell 0 0 (IntegerValue 3) idleGame = Inr idleGame \<and>
   (0::nat) < length (initialBoard demoGame) \<and> (int (gameSize demoGame) < 7) \<and>
   updateCell 0 0 (IntegerValue 7) demoGame = Inr demoGame \<and>
   updateCell 0 0 NotInteger demoGame = Inr demoGame"
proof -
  have a: "status idleGame \<noteq> Playing" by (simp add: idleGame_def)
  have b: "(0::nat) < length (initialBoard demoGame)" by (simp add: demoGame_def demoGrid6_def)
  have c: "int (gameSize demoGame) < 7" by (simp add: demoGame_def)
  from updateCell_rejects_invalid [where s = idleGame and row = 0 and col = 0 and v = "IntegerValue 3"]
       updateCell_rejects_invalid [where s = demoGame and row = 0 and col = 0 and v = "IntegerValue 7"]
       updateCell_rejects_invalid [where s = demoGame and row = 0 and col = 0 and v = NotInteger] a b c
  show ?thesis by simp
qed

section \<open>The hint selector\<close>

lemma tryCandidates_square:
  assumes "squareGrid sz g" "sz = 6 \<or> sz = 9" "r < sz" "c < sz"
  shows "length acc \<le> 1 \<Longrightarrow>
     \<exists>cands. tryCandidates g sz r c vs acc = Inr cands \<and>
        length cands = min 2 (length acc + length (filter (okCandidate g sz (r, c)) vs))"
proof (induction vs arbitrary: acc)
  case Nil
  then show ?case by simp
next
  case (Cons v vs)
  let ?temp = "putCell g r c v"
  have wr: "setCell (clone2D g) r c v = Inr ?temp"
    using setCell_square [OF assms(1,3,4), of v] by (simp add: clone2D_id)
  have ce: "computeErrors ?temp sz = Inr (violations ?temp sz)"
    using squareGrid_putCell [OF assms(1)] assms(2) by (rule computeErrors_square)
  show ?case
  proof (cases "okCandidate g sz (r, c) v")
    case False
    then have "(r, c) \<in> violations ?temp sz" by (simp add: okCandidate_def)
    with wr ce Cons.prems False Cons.IH [OF Cons.prems] show ?thesis by simp
  next
    case True
    then have notin: "(r, c) \<notin> violations ?temp sz" by (simp add: okCandidate_def)
    show ?thesis
    proof (cases "length acc = 0")
      case len0: True
      have "length (acc @ [v]) \<le> 1" using len0 by simp
      from Cons.IH [OF this] wr ce notin True len0 show ?thesis by simp
    next
      case False
      with Cons.prems have "length acc = 1" by linarith
      with wr ce notin True show ?thesis by simp
    qed
  qed
qed

lemma card_candidates:
  "card {v \<in> {1..sz}. P v} = length (filter P [1..<sz + 1])"
proof -
  have eq: "{v \<in> {1..sz}. P v} = set (filter P [1..<sz + 1])" by (auto simp del: upt_Suc)
  have "distinct (filter P [1..<sz + 1])" by (simp del: upt_Suc)
  then show ?thesis unfolding eq by (rule distinct_card)
qed

lemma hintScan_square:
  assumes "squareGrid sz g" "sz = 6 \<or> sz = 9" "\<forall>(r, c) \<in> set cells. r < sz \<and> c < sz"
  shows "hintScan g sz cells = Inr (find (qualifies g sz) cells)"
  using assms(3)
proof (induction cells)
  case Nil
  then show ?case by simp
next
  case (Cons rc cells)
  obtain r c where rc: "rc = (r, c)" by (cases rc)
  with Cons.prems have inr: "r < sz" "c < sz" by auto
  have rd: "cellAt g r c = Inr (Some (g ! r ! c))" using assms(1) inr by (rule cellAt_square)
  have IH: "hintScan g sz cells = Inr (find (qualifies g sz) cells)"
    using Cons by simp
  show ?case
  proof (cases "g ! r ! c = 0")
    case False
    then have "\<not> qualifies g sz (r, c)" by (simp add: qualifies_def cellVal_def)
    with rd False IH rc show ?thesis by simp
  next
    case True
    from tryCandidates_square [OF assms(1,2) inr, of "[]" "[1..<sz + 1]"]
    obtain cands where run: "tryCandidates g sz r c [1..<sz + 1] [] = Inr cands"
      and len: "length cands = min 2 (length (filter (okCandidate g sz (r, c)) [1..<sz + 1]))"
      by auto
    have "qualifies g sz (r, c) \<longleftrightarrow>
            length (filter (okCandidate g sz (r, c)) [1..<sz + 1]) = 1"
      unfolding qualifies_def card_candidates using True inr
      by (simp add: cellVal_def del: upt_Suc)
    also have "\<dots> \<longleftrightarrow> length cands = 1" unfolding len by linarith
    finally have "qualifies g sz (r, c) \<longleftrightarrow> length cands = 1" .
    with rd True IH rc run show ?thesis by (simp del: upt_Suc)
  qed
qed

lemma nth_allCells: "i < sz * sz \<Longrightarrow> allCells sz ! i = (i div sz, i mod sz)"
proof -
  assume lt: "i < sz * sz"
  then have "0 < sz" by (cases sz) auto
  have "i div sz < sz" using lt by (simp add: less_mult_imp_div_less)
  moreover have "i mod sz < sz" using \<open>0 < sz\<close> by simp
  ultimately show ?thesis using lt by (simp add: allCells_def product_nth)
qed

lemma find_first_allCells:
  assumes "fst cell < sz" "snd cell < sz" "P cell"
    and "\<forall>cell'. precedes cell' cell \<longrightarrow> \<not> P cell'"
  shows "find P (allCells sz) = Some cell"
proof -
  let ?i = "fst cell * sz + snd cell"
  have "?i < fst cell * sz + sz" using assms(2) by simp
  also have "\<dots> = Suc (fst cell) * sz" by simp
  also have "\<dots> \<le> sz * sz" using assms(1) by (intro mult_le_mono1) simp
  finally have lt: "?i < sz * sz" .
  have at: "allCells sz ! ?i = cell"
    using nth_allCells [OF lt] assms(2) by (cases cell) simp
  have before: "\<not> P (allCells sz ! j)" if "j < ?i" for j
  proof -
    have jlt: "j < sz * sz" using that lt by simp
    have "0 < sz" using assms(2) by (cases sz) auto
    have "j < Suc (fst cell) * sz" using that assms(2) by simp
    then have "j div sz < Suc (fst cell)" by (rule less_mult_imp_div_less)
    then have "j div sz \<le> fst cell" by simp
    moreover have "j mod sz < snd cell" if "j div sz = fst cell"
    proof -
      have "j = fst cell * sz + j mod sz" using div_mult_mod_eq [of j sz] that by simp
      with \<open>j < ?i\<close> show ?thesis by simp
    qed
    ultimately have "precedes (j div sz, j mod sz) cell"
      by (auto simp: precedes_def)
    with assms(4) nth_allCells [OF jlt] show ?thesis by simp
  qed
  have "?i < length (allCells sz)" using lt by (simp add: allCells_def)
  then have "\<exists>i<length (allCells sz). P (allCells sz ! i) \<and> cell = allCells sz ! i \<and>
               (\<forall>j<i. \<not> P (allCells sz ! j))"
    using at before assms(3) by (intro exI [of _ ?i]) simp
  then show ?thesis unfolding find_Some_iff .
qed

lemma giveHint_ok:
  assumes "gameOk s" "status s = Playing"
  shows "giveHint s =
           Inr (case find (qualifies (board s) (gameSize s)) (allCells (gameSize s)) of
                  None \<Rightarrow> s
                | Some cell \<Rightarrow> s\<lparr>hintCell := Some cell\<rparr>)"
proof -
  let ?sz = "gameSize s"
  have szs: "?sz = 6 \<or> ?sz = 9" and sqb: "squareGrid ?sz (board s)"
    using assms(1) by (simp_all add: gameOk_def)
  have len: "length (board s) \<noteq> 0" "?sz \<noteq> 0" using sqb szs by (auto simp: squareGrid_def)
  have "hintScan (board s) ?sz (allCells ?sz) = Inr (find (qualifies (board s) ?sz) (allCells ?sz))"
    using sqb szs by (rule hintScan_square) (simp add: set_allCells)
  with assms(2) len show ?thesis by (simp add: giveHint_def split: option.splits)
qed

text \<open>
  Claim C6. In a game that is being played, \<^verbatim>\<open>giveHint\<close> sets the hint target to the
  first cell, in row-major order, that is empty and has exactly one value in
  \<open>1..size\<close> whose placement leaves the cell out of the violation set; it changes nothing
  else. When no cell qualifies, it returns the state as it is, without an error. The
  candidate loop stops at two candidates, which does not change which cells qualify.
\<close>

theorem giveHint_first_unique_candidate:
  assumes "gameOk s" and "status s = Playing"
  shows "(\<forall>cell. isFirstHint (board s) (gameSize s) cell \<longrightarrow>
            giveHint s = Inr (s\<lparr>hintCell := Some cell\<rparr>)) \<and>
         ((\<forall>cell. \<not> qualifies (board s) (gameSize s) cell) \<longrightarrow> giveHint s = Inr s)"
proof (intro conjI allI impI)
  fix cell
  assume "isFirstHint (board s) (gameSize s) cell"
  then have "find (qualifies (board s) (gameSize s)) (allCells (gameSize s)) = Some cell"
    by (intro find_first_allCells) (simp_all add: isFirstHint_def qualifies_def)
  then show "giveHint s = Inr (s\<lparr>hintCell := Some cell\<rparr>)"
    using giveHint_ok [OF assms] by simp
next
  assume "\<forall>cell. \<not> qualifies (board s) (gameSize s) cell"
  then have "find (qualifies (board s) (gameSize s)) (allCells (gameSize s)) = None"
    by (simp add: find_None_iff)
  then show "giveHint s = Inr s" using giveHint_ok [OF assms] by simp
qed

theorem giveHint_first_unique_candidate_witness:
  "gameOk demoGame \<and> status demoGame = Playing \<and>
   isFirstHint (board demoGame) (gameSize demoGame) (0, 0) \<and>
   giveHint demoGame = Inr (demoGame\<lparr>hintCell := Some (0, 0)\<rparr>)"
proof -
  have ok: "gameOk demoGame" by code_simp
  have st: "status demoGame = Playing" by (simp add: demoGame_def)
  have q: "qualifies (board demoGame) (gameSize demoGame) (0, 0)" by code_simp
  have first: "isFirstHint (board demoGame) (gameSize demoGame) (0, 0)"
    using q by (simp add: isFirstHint_def precedes_def)
  from giveHint_first_unique_candidate [OF ok st] first ok st show ?thesis by blast
qed

section \<open>The solution counter counts the completions\<close>

lemma violations_mem:
  "cell \<in> violations g sz \<longleftrightarrow>
     cell \<in> {0..<sz} \<times> {0..<sz} \<and> cellVal g cell \<noteq> 0 \<and> conflictAt g sz cell (cellVal g cell)"
  by (simp add: violations_def conflictAt_def)

lemma isSafe_conflictAt:
  assumes "squareGrid sz g" "sz = 6 \<or> sz = 9" "r < sz" "c < sz"
    and "cellVal g (r, c) = 0" "v \<noteq> 0"
  shows "isSafe g r c v sz = Inr (\<not> conflictAt g sz (r, c) v)"
proof -
  obtain R C where bd: "getBlockDimensions sz = (R, C)" by (cases "getBlockDimensions sz")
  note dims = blockDimensions_ok [OF assms(2) bd]
  let ?sr = "r - r mod R" and ?sc = "c - c mod C"
  have dv: "R dvd ?sr" "C dvd ?sc" by (simp_all add: dvd_minus_mod)
  have lim: "?sr + R \<le> sz" "?sc + C \<le> sz"
    using blockStart_bound [OF assms(2)] assms(3,4) bd by auto
  have "(occursInRow g sz r v \<or> occursInCol g sz c v \<or> occursInBox g sz r c v)
          \<longleftrightarrow> conflictAt g sz (r, c) v" (is "?L \<longleftrightarrow> ?R")
  proof
    assume ?L
    then consider c' where "c' < sz" "g ! r ! c' = v"
      | r' where "r' < sz" "g ! r' ! c = v"
      | r' c' where "?sr \<le> r' \<and> r' < ?sr + R" "?sc \<le> c' \<and> c' < ?sc + C" "g ! r' ! c' = v"
      by (auto simp: occursInRow_def occursInCol_def occursInBox_def bd)
    then obtain other where "other \<in> {0..<sz} \<times> {0..<sz}" "cellVal g other = v"
      "fst other = r \<or> snd other = c \<or> boxOrigin sz other = boxOrigin sz (r, c)"
    proof cases
      case 1
      with assms(3) that [of "(r, c')"] show ?thesis by (simp add: cellVal_def)
    next
      case 2
      with assms(4) that [of "(r', c)"] show ?thesis by (simp add: cellVal_def)
    next
      case 3
      have "?sr = r' - r' mod R" "?sc = c' - c' mod C"
        using in_block_iff [OF dims(1) dv(1), of r'] in_block_iff [OF dims(2) dv(2), of c'] 3(1,2)
        by simp_all
      moreover have "r' < sz" "c' < sz" using 3(1,2) lim by simp_all
      ultimately show ?thesis using that [of "(r', c')"] 3(3)
        by (simp add: cellVal_def boxOrigin_def bd)
    qed
    moreover from this assms(5,6) have "other \<noteq> (r, c)" by auto
    ultimately show ?R unfolding conflictAt_def by (intro bexI [of _ other]) simp_all
  next
    assume ?R
    then obtain r' c' where o: "r' < sz" "c' < sz" "g ! r' ! c' = v"
      and rel: "r' = r \<or> c' = c \<or> boxOrigin sz (r', c') = boxOrigin sz (r, c)"
      by (auto simp: conflictAt_def cellVal_def)
    from rel consider "r' = r" | "c' = c" | "boxOrigin sz (r', c') = boxOrigin sz (r, c)" by blast
    then show ?L
    proof cases
      case 1
      with o have "occursInRow g sz r v" by (auto simp: occursInRow_def)
      then show ?thesis by simp
    next
      case 2
      with o have "occursInCol g sz c v" by (auto simp: occursInCol_def)
      then show ?thesis by simp
    next
      case 3
      then have same: "r' - r' mod R = ?sr" "c' - c' mod C = ?sc" by (simp_all add: boxOrigin_def bd)
      have "?sr \<le> r' \<and> r' < ?sr + R" "?sc \<le> c' \<and> c' < ?sc + C"
        using in_block_iff [OF dims(1) dv(1), of r'] in_block_iff [OF dims(2) dv(2), of c'] same
        by simp_all
      then have "r' \<in> {?sr..<?sr + R}" "c' \<in> {?sc..<?sc + C}" by simp_all
      with o(3) have "occursInBox g sz r c v"
        unfolding occursInBox_def bd by (simp only: prod.case) blast
      then show ?thesis by simp
    qed
  qed
  then show ?thesis using isSafe_square [OF assms(1-4), of v] by simp
qed


lemma cellVal_putCell:
  assumes "squareGrid sz g" "r < sz" "c < sz"
  shows "cellVal (putCell g r c v) cell = (if cell = (r, c) then v else cellVal g cell)"
  using cellVal_putCell_same [OF assms, of v] cellVal_putCell_other [of cell r c g v] by simp

lemma conflictAt_sym:
  assumes "x \<in> {0..<sz} \<times> {0..<sz}" "y \<in> {0..<sz} \<times> {0..<sz}" "y \<noteq> x"
    and "fst y = fst x \<or> snd y = snd x \<or> boxOrigin sz y = boxOrigin sz x"
  shows "conflictAt g sz x (cellVal g y)" "conflictAt g sz y (cellVal g x)"
proof -
  show "conflictAt g sz x (cellVal g y)"
    unfolding conflictAt_def using assms by (intro bexI [of _ y]) simp_all
  have "x \<noteq> y" "fst x = fst y \<or> snd x = snd y \<or> boxOrigin sz x = boxOrigin sz y"
    using assms(3,4) by auto
  then show "conflictAt g sz y (cellVal g x)"
    unfolding conflictAt_def using assms(1) by (intro bexI [of _ x]) simp_all
qed

lemma violations_putCell_empty:
  assumes "squareGrid sz g" "r < sz" "c < sz" "cellVal g (r, c) = 0" "v \<noteq> 0"
    and "violations g sz = {}" "\<not> conflictAt g sz (r, c) v"
  shows "violations (putCell g r c v) sz = {}"
proof (rule ccontr)
  let ?h = "putCell g r c v"
  note val = cellVal_putCell [OF assms(1-3), of v]
  assume "violations ?h sz \<noteq> {}"
  then obtain x where "x \<in> violations ?h sz" by blast
  then have x: "x \<in> {0..<sz} \<times> {0..<sz}" "cellVal ?h x \<noteq> 0"
    and "conflictAt ?h sz x (cellVal ?h x)"
    unfolding violations_mem by blast+
  then obtain y where y: "y \<in> {0..<sz} \<times> {0..<sz}" "y \<noteq> x" "cellVal ?h y = cellVal ?h x"
    and rel: "fst y = fst x \<or> snd y = snd x \<or> boxOrigin sz y = boxOrigin sz x"
    unfolding conflictAt_def by blast
  show False
  proof (cases "x = (r, c)")
    case True
    with y(2,3) have "cellVal g y = v" by (simp add: val)
    with conflictAt_sym(1) [OF x(1) y(1,2) rel, of g] True assms(7) show False by simp
  next
    case xne: False
    show False
    proof (cases "y = (r, c)")
      case True
      with y(3) xne have "cellVal g x = v" by (simp add: val)
      with conflictAt_sym(2) [OF x(1) y(1,2) rel, of g] True assms(7) show False by simp
    next
      case False
      with xne y(3) x(2) have "cellVal g y = cellVal g x" "cellVal g x \<noteq> 0" by (simp_all add: val)
      with conflictAt_sym(1) [OF x(1) y(1,2) rel, of g] x(1) have "x \<in> violations g sz"
        by (simp add: violations_mem)
      with assms(6) show False by simp
    qed
  qed
qed

lemma completions_conflict_empty:
  assumes "squareGrid sz g" "r < sz" "c < sz" "v \<noteq> 0" "conflictAt g sz (r, c) v"
  shows "completions sz (putCell g r c v) = {}"
proof (rule ccontr)
  let ?p = "putCell g r c v"
  note val = cellVal_putCell [OF assms(1-3), of v]
  assume "completions sz ?p \<noteq> {}"
  then obtain h where h: "isCompletion sz ?p h" by (auto simp: completions_def)
  from assms(5) obtain y where y: "y \<in> {0..<sz} \<times> {0..<sz}" "y \<noteq> (r, c)" "cellVal g y = v"
    and rel: "fst y = fst (r, c) \<or> snd y = snd (r, c) \<or> boxOrigin sz y = boxOrigin sz (r, c)"
    unfolding conflictAt_def by blast
  have cell: "(r, c) \<in> {0..<sz} \<times> {0..<sz}" using assms(2,3) by simp
  have hy: "cellVal h y = v"
    using h y assms(4) unfolding isCompletion_def by (metis val)
  have hc: "cellVal h (r, c) = v"
    using h cell assms(4) unfolding isCompletion_def by (metis val)
  have "conflictAt h sz (r, c) (cellVal h y)" using cell y(1,2) rel by (rule conflictAt_sym(1))
  with hy hc cell assms(4) have "(r, c) \<in> violations h sz" by (simp add: violations_mem)
  with h show False by (simp add: isCompletion_def)
qed

lemma completions_split:
  assumes "squareGrid sz g" "r < sz" "c < sz" "cellVal g (r, c) = 0"
  shows "completions sz g = (\<Union>v \<in> {1..sz}. completions sz (putCell g r c v))"
proof (rule set_eqI)
  fix h
  note val = cellVal_putCell [OF assms(1-3)]
  have cell: "(r, c) \<in> {0..<sz} \<times> {0..<sz}" using assms(2,3) by simp
  show "h \<in> completions sz g \<longleftrightarrow> h \<in> (\<Union>v \<in> {1..sz}. completions sz (putCell g r c v))"
  proof
    assume "h \<in> completions sz g"
    then have h: "isCompletion sz g h" by (simp add: completions_def)
    let ?v = "cellVal h (r, c)"
    have rng: "?v \<in> {1..sz}" using h cell unfolding isCompletion_def by auto
    have "isCompletion sz (putCell g r c ?v) h"
      using h unfolding isCompletion_def by (auto simp: val)
    with rng show "h \<in> (\<Union>v \<in> {1..sz}. completions sz (putCell g r c v))"
      by (auto simp: completions_def)
  next
    assume "h \<in> (\<Union>v \<in> {1..sz}. completions sz (putCell g r c v))"
    then obtain v where v: "v \<in> {1..sz}" and h: "isCompletion sz (putCell g r c v) h"
      by (auto simp: completions_def)
    have "cellVal h x = cellVal g x" if "x \<in> {0..<sz} \<times> {0..<sz}" "cellVal g x \<noteq> 0" for x
    proof -
      have "x \<noteq> (r, c)" using that(2) assms(4) by auto
      then have "cellVal (putCell g r c v) x = cellVal g x" by (simp add: val)
      with h that show ?thesis unfolding isCompletion_def by metis
    qed
    with h have "isCompletion sz g h" unfolding isCompletion_def by blast
    then show "h \<in> completions sz g" by (simp add: completions_def)
  qed
qed

lemma completions_disjoint:
  assumes "squareGrid sz g" "r < sz" "c < sz" "v \<noteq> w" "v \<noteq> 0" "w \<noteq> 0"
  shows "completions sz (putCell g r c v) \<inter> completions sz (putCell g r c w) = {}"
proof (rule ccontr)
  note val = cellVal_putCell [OF assms(1-3)]
  have cell: "(r, c) \<in> {0..<sz} \<times> {0..<sz}" using assms(2,3) by simp
  assume "completions sz (putCell g r c v) \<inter> completions sz (putCell g r c w) \<noteq> {}"
  then obtain h where "isCompletion sz (putCell g r c v) h" "isCompletion sz (putCell g r c w) h"
    by (auto simp: completions_def)
  then have "cellVal h (r, c) = v" "cellVal h (r, c) = w"
    using cell assms(5,6) unfolding isCompletion_def by (metis val)+
  with assms(4) show False by simp
qed


lemma grid_eqI:
  assumes "squareGrid sz g" "squareGrid sz h"
    and "\<And>r c. r < sz \<Longrightarrow> c < sz \<Longrightarrow> g ! r ! c = h ! r ! c"
  shows "g = h"
proof (rule nth_equalityI)
  show "length g = length h" using assms(1,2) by (simp add: squareGrid_length)
next
  fix r assume "r < length g"
  then have r: "r < sz" using assms(1) by (simp add: squareGrid_length)
  show "g ! r = h ! r"
  proof (rule nth_equalityI)
    show "length (g ! r) = length (h ! r)" using assms(1,2) r by (simp add: squareGrid_nth)
  next
    fix c assume "c < length (g ! r)"
    then have "c < sz" using assms(1) r by (simp add: squareGrid_nth)
    with r show "g ! r ! c = h ! r ! c" by (rule assms(3))
  qed
qed

lemma completions_full:
  assumes "squareGrid sz g" "gridValues sz g" "violations g sz = {}"
    and "\<forall>cell \<in> {0..<sz} \<times> {0..<sz}. cellVal g cell \<noteq> 0"
  shows "completions sz g = {g}"
proof (rule set_eqI)
  fix h
  show "h \<in> completions sz g \<longleftrightarrow> h \<in> {g}"
  proof
    assume "h \<in> completions sz g"
    then have h: "isCompletion sz g h" by (simp add: completions_def)
    have "h ! r ! c = g ! r ! c" if "r < sz" "c < sz" for r c
    proof -
      have "(r, c) \<in> {0..<sz} \<times> {0..<sz}" using that by simp
      with h assms(4) have "cellVal h (r, c) = cellVal g (r, c)"
        unfolding isCompletion_def by blast
      then show ?thesis by (simp add: cellVal_def)
    qed
    with h assms(1) have "h = g" by (intro grid_eqI [of sz]) (simp_all add: isCompletion_def)
    then show "h \<in> {g}" by simp
  next
    assume "h \<in> {g}"
    moreover have "isCompletion sz g g"
      unfolding isCompletion_def using assms by (auto simp: gridValues_def Suc_le_eq)
    ultimately show "h \<in> completions sz g" by (simp add: completions_def)
  qed
qed

lemma finite_completions: "finite (completions sz g)"
proof -
  let ?rows = "{row. set row \<subseteq> {0..sz} \<and> length row = sz}"
  have "finite ?rows" by (rule finite_lists_length_eq) simp
  then have fin: "finite {h. set h \<subseteq> ?rows \<and> length h = sz}" by (rule finite_lists_length_eq)
  have "completions sz g \<subseteq> {h. set h \<subseteq> ?rows \<and> length h = sz}"
  proof
    fix h assume "h \<in> completions sz g"
    then have h: "isCompletion sz g h" by (simp add: completions_def)
    then have sq: "squareGrid sz h" by (simp add: isCompletion_def)
    have "row \<in> ?rows" if "row \<in> set h" for row
    proof -
      from that obtain r where r: "r < length h" "row = h ! r" by (auto simp: in_set_conv_nth)
      then have rs: "r < sz" using sq by (simp add: squareGrid_length)
      have len: "length row = sz" using sq rs r(2) by (simp add: squareGrid_nth)
      have "x \<le> sz" if "x \<in> set row" for x
      proof -
        from that len obtain c where c: "c < sz" "x = row ! c" by (auto simp: in_set_conv_nth)
        then have "(r, c) \<in> {0..<sz} \<times> {0..<sz}" using rs by simp
        with h have "cellVal h (r, c) \<le> sz" unfolding isCompletion_def by blast
        with c r(2) show ?thesis by (simp add: cellVal_def)
      qed
      with len show ?thesis by auto
    qed
    with sq show "h \<in> {h. set h \<subseteq> ?rows \<and> length h = sz}"
      by (auto simp: squareGrid_length)
  qed
  with fin show ?thesis by (rule finite_subset [rotated])
qed

lemma card_completions_split:
  assumes "squareGrid sz g" "r < sz" "c < sz" "cellVal g (r, c) = 0"
  shows "card (completions sz g) = (\<Sum>v \<in> {1..sz}. card (completions sz (putCell g r c v)))"
proof -
  have "card (\<Union>v \<in> {1..sz}. completions sz (putCell g r c v))
          = (\<Sum>v \<in> {1..sz}. card (completions sz (putCell g r c v)))"
  proof (rule card_UN_disjoint)
    show "finite {1..sz}" by simp
    show "\<forall>v \<in> {1..sz}. finite (completions sz (putCell g r c v))"
      by (simp add: finite_completions)
    show "\<forall>v \<in> {1..sz}. \<forall>w \<in> {1..sz}. v \<noteq> w \<longrightarrow>
            completions sz (putCell g r c v) \<inter> completions sz (putCell g r c w) = {}"
      using completions_disjoint [OF assms(1-3)] by auto
  qed
  then show ?thesis using completions_split [OF assms] by simp
qed

lemma gridValues_putCell:
  assumes "squareGrid sz g" "r < sz" "c < sz" "gridValues sz g" "v \<le> sz"
  shows "gridValues sz (putCell g r c v)"
  using assms(4,5) unfolding gridValues_def by (simp add: cellVal_putCell [OF assms(1-3)])

lemma find_empty_cell:
  "find (\<lambda>(r, c). g ! r ! c = 0) (allCells sz) = Some (row, col) \<Longrightarrow>
     row < sz \<and> col < sz \<and> cellVal g (row, col) = 0"
proof -
  assume "find (\<lambda>(r, c). g ! r ! c = 0) (allCells sz) = Some (row, col)"
  then have "(row, col) \<in> set (allCells sz)" "g ! row ! col = 0"
    by (auto simp: find_Some_iff in_set_conv_nth)
  then show ?thesis by (simp add: set_allCells cellVal_def)
qed

lemma find_no_empty_cell:
  "find (\<lambda>(r, c). g ! r ! c = 0) (allCells sz) = None \<Longrightarrow>
     \<forall>cell \<in> {0..<sz} \<times> {0..<sz}. cellVal g cell \<noteq> 0"
  by (auto simp: find_None_iff set_allCells cellVal_def)


lemma backtrack_tryNums_count:
  "squareGrid sz g \<Longrightarrow> sz = 6 \<or> sz = 9 \<Longrightarrow> gridValues sz g \<Longrightarrow> violations g sz = {} \<Longrightarrow>
     k \<le> limit \<Longrightarrow>
     backtrack sz limit g k = Inr (g, min (k + card (completions sz g)) limit)"
  "squareGrid sz g \<Longrightarrow> sz = 6 \<or> sz = 9 \<Longrightarrow> gridValues sz g \<Longrightarrow> violations g sz = {} \<Longrightarrow>
     row < sz \<Longrightarrow> col < sz \<Longrightarrow> cellVal g (row, col) = 0 \<Longrightarrow> 1 \<le> num \<Longrightarrow> k \<le> limit \<Longrightarrow>
     tryNums sz limit row col num g k =
       Inr (g, min (k + (\<Sum>v \<in> {num..sz}. card (completions sz (putCell g row col v)))) limit)"
proof (induction sz limit g k and sz limit row col num g k rule: backtrack_tryNums.induct)
  case (1 sz limit g k)
  note sq = \<open>squareGrid sz g\<close> and szs = \<open>sz = 6 \<or> sz = 9\<close> and vals = \<open>gridValues sz g\<close>
    and nov = \<open>violations g sz = {}\<close> and kl = \<open>k \<le> limit\<close>
  show ?case
  proof (cases "limit \<le> k")
    case True
    with kl show ?thesis by (simp add: backtrack.simps)
  next
    case False
    have fe: "firstEmpty g (allCells sz) = Inr (find (\<lambda>(r, c). g ! r ! c = 0) (allCells sz))"
      using sq by (rule firstEmpty_allCells)
    show ?thesis
    proof (cases "find (\<lambda>(r, c). g ! r ! c = 0) (allCells sz)")
      case None
      have "completions sz g = {g}"
        using sq vals nov find_no_empty_cell [OF None] by (rule completions_full)
      with False fe None show ?thesis by (simp add: backtrack.simps)
    next
      case (Some rc)
      obtain row col where rc: "rc = (row, col)" by (cases rc)
      from Some rc have cell: "row < sz" "col < sz" "cellVal g (row, col) = 0"
        using find_empty_cell [of g sz row col] by simp_all
      have "tryNums sz limit row col 1 g k =
              Inr (g, min (k + (\<Sum>v \<in> {1..sz}. card (completions sz (putCell g row col v)))) limit)"
        using "1.IH" [OF False fe Some rc [symmetric] sq szs vals nov cell _ kl] by simp
      moreover have "card (completions sz g)
                       = (\<Sum>v \<in> {1..sz}. card (completions sz (putCell g row col v)))"
        using sq cell by (rule card_completions_split)
      ultimately show ?thesis using False fe Some rc by (simp add: backtrack.simps)
    qed
  qed
next
  case (2 sz limit row col num g k)
  note sq = \<open>squareGrid sz g\<close> and szs = \<open>sz = 6 \<or> sz = 9\<close> and vals = \<open>gridValues sz g\<close>
    and nov = \<open>violations g sz = {}\<close> and cell = \<open>row < sz\<close> \<open>col < sz\<close> \<open>cellVal g (row, col) = 0\<close>
    and pos = \<open>1 \<le> num\<close> and kl = \<open>k \<le> limit\<close>
  let ?N = "\<lambda>v. card (completions sz (putCell g row col v))"
  show ?case
  proof (cases "num \<le> sz")
    case False
    with kl show ?thesis by (simp add: tryNums.simps [of sz limit row col num])
  next
    case le: True
    have nz: "num \<noteq> 0" using pos by simp
    have sum: "(\<Sum>v \<in> {num..sz}. ?N v) = ?N num + (\<Sum>v \<in> {num + 1..sz}. ?N v)"
      using le by (simp add: sum.atLeast_Suc_atMost)
    have safe: "isSafe g row col num sz = Inr (\<not> conflictAt g sz (row, col) num)"
      using sq szs cell nz by (rule isSafe_conflictAt)
    show ?thesis
    proof (cases "conflictAt g sz (row, col) num")
      case True
      have "?N num = 0"
        using completions_conflict_empty [OF sq cell(1,2) nz True] by simp
      moreover have "tryNums sz limit row col (num + 1) g k =
          Inr (g, min (k + (\<Sum>v \<in> {num + 1..sz}. ?N v)) limit)"
        using "2.IH"(3) [OF le safe _ sq szs vals nov cell _ kl] True by simp
      ultimately show ?thesis
        using le safe True sum by (simp add: tryNums.simps [of sz limit row col num])
    next
      case False
      let ?placed = "putCell g row col num"
      have st: "(\<not> conflictAt g sz (row, col) num) = True" using False by simp
      have placed: "setCell g row col num = Inr ?placed"
        using sq cell(1,2) by (rule setCell_square)
      have sqp: "squareGrid sz ?placed" using sq by (rule squareGrid_putCell)
      have valp: "gridValues sz ?placed" using sq cell(1,2) vals le by (rule gridValues_putCell)
      have novp: "violations ?placed sz = {}"
        using sq cell nz nov False by (rule violations_putCell_empty)
      let ?n1 = "min (k + ?N num) limit"
      have inner: "backtrack sz limit ?placed k = Inr (?placed, ?n1)"
        using "2.IH"(1) [OF le safe st placed sqp szs valp novp kl] .
      have cleared: "setCell ?placed row col 0 = Inr g"
        using setCell_square [OF sqp cell(1,2), of 0] putCell_zero_same [OF sq cell(1,2)] cell(3)
        by (simp add: putCell_putCell cellVal_def)
      show ?thesis
      proof (cases "limit \<le> ?n1")
        case True
        then have "limit \<le> k + ?N num" by simp
        then have "min (k + (\<Sum>v \<in> {num..sz}. ?N v)) limit = limit" using sum by simp
        moreover have "?n1 = limit" using True by simp
        ultimately show ?thesis
          using le safe False placed inner cleared True
          by (simp add: tryNums.simps [of sz limit row col num])
      next
        case nl: False
        then have n1: "?n1 = k + ?N num" and "?n1 \<le> limit" by simp_all
        have "tryNums sz limit row col (num + 1) g ?n1 =
                Inr (g, min (?n1 + (\<Sum>v \<in> {num + 1..sz}. ?N v)) limit)"
          using "2.IH"(2) [OF le safe st placed inner refl cleared nl sq szs vals nov cell _
                  \<open>?n1 \<le> limit\<close>] by simp
        then have "tryNums sz limit row col (num + 1) g ?n1 =
                Inr (g, min (k + (\<Sum>v \<in> {num..sz}. ?N v)) limit)"
          using nl sum by (simp add: add.assoc min_def)
        then show ?thesis
          using le safe False placed inner cleared nl
          by (simp add: tryNums.simps [of sz limit row col num])
      qed
    qed
  qed
qed

text \<open>
  Claim C2. On a \<open>size \<times> size\<close> grid with \<open>size\<close> 6 or 9, values in \<open>[0, size]\<close> and no
  duplicate among the nonzero cells of a row, column or box, \<^verbatim>\<open>countSolutions\<close> returns
  the minimum of the number of completions and the limit: never more than the limit, and
  the number of completions itself when that is below the limit. The completions are
  finitely many, so their number is a proper count.
\<close>

theorem countSolutions_exact:
  assumes "squareGrid sz g" and "sz = 6 \<or> sz = 9" and "gridValues sz g"
    and "violations g sz = {}"
  shows "countSolutions g sz limit = Inr (g, min (card (completions sz g)) limit) \<and>
         finite (completions sz g)"
  using backtrack_tryNums_count(1) [OF assms, of 0 limit] finite_completions [of sz g]
  by (simp add: countSolutions_def)

theorem countSolutions_exact_witness:
  "squareGrid 6 demoGrid6 \<and> ((6::nat) = 6 \<or> (6::nat) = 9) \<and> gridValues 6 demoGrid6 \<and>
   violations demoGrid6 6 = {} \<and>
   countSolutions demoGrid6 6 2 = Inr (demoGrid6, 1) \<and> card (completions 6 demoGrid6) = 1"
proof -
  have sq: "squareGrid 6 demoGrid6" by code_simp
  have vals: "gridValues 6 demoGrid6" by code_simp
  have nov: "violations demoGrid6 6 = {}" by code_simp
  have run: "countSolutions demoGrid6 6 2 = Inr (demoGrid6, 1)" by code_simp
  from countSolutions_exact [OF sq _ vals nov, of 2] run
  have "min (card (completions 6 demoGrid6)) 2 = 1" by simp
  then have "card (completions 6 demoGrid6) = 1" by (simp add: min_def split: if_splits)
  with sq vals nov run show ?thesis by simp
qed

end
